theory Spec2Isabelle
  imports Main
begin

section \<open>Domain entities\<close>

text \<open>
  A JavaScript \<open>Date\<close> is modelled by its \<open>getTime()\<close> value, the number of
  milliseconds since the epoch. The boundary validators only let valid dates through, so
  the value is an integer; comparisons and differences of dates are those of the integers.
\<close>

type_synonym time = int

datatype BookingStatus = PENDING | CONFIRMED | CANCELLED

text \<open>
  \<open>CreateBookingData\<close> and \<open>Booking\<close> share seven fields; \<open>Booking\<close> is the record
  extension that adds the stored ones. An optional field (\<open>?:\<close>) is an \<open>option\<close>.
  The field \<open>id\<close> of the source is \<open>id_b\<close> here (\<open>id\<close> is the identity function of HOL).
\<close>

record CreateBookingData =
  roomId :: string
  userId :: string
  title :: string
  description :: "string option"
  startTime :: time
  endTime :: time
  idempotencyKey :: "string option"

record Booking = CreateBookingData +
  id_b :: string
  status :: BookingStatus
  createdAt :: time
  updatedAt :: time
  cancelledAt :: "time option"

record Room =
  id_r :: string
  name_r :: string
  capacity_r :: int
  location_r :: string
  amenities_r :: "string list"
  isActive_r :: bool
  createdAt_r :: time
  updatedAt_r :: time

record TimeSlot =
  slotStart :: time
  slotEnd :: time

record RoomAvailability =
  roomId_a :: string
  date_a :: time
  availableSlots :: "TimeSlot list"
  bookedSlots :: "TimeSlot list"

record BookingFilter =
  roomId_f :: "string option"
  userId_f :: "string option"
  status_f :: "BookingStatus option"
  startTimeFrom :: "time option"
  startTimeTo :: "time option"

text \<open>
  The fields of \<open>Partial<Booking>\<close> that \<open>PostgresBookingRepository.update\<close> reads;
  it ignores every other field of its argument.
\<close>

record BookingPatch =
  title_p :: "string option"
  description_p :: "string option"
  status_p :: "BookingStatus option"
  cancelledAt_p :: "time option"

section \<open>Errors and events\<close>

text \<open>
  The store raises on a violated constraint of the \<open>bookings\<close> table; the constraint is
  named as PostgreSQL names it.
\<close>

datatype db_error = UniqueViolation string

datatype error =
    BookingNotFoundError string
  | RoomNotFoundError string
  | RoomUnavailableError string time time
  | BookingAlreadyCancelledError string
  | InvalidBookingTimeError string
  | DatabaseError db_error

text \<open>
  The payloads handed to \<open>eventBus.emit\<close>:
  \<open>BOOKING_CREATED booking timestamp\<close>,
  \<open>BOOKING_CANCELLED booking reason timestamp\<close>,
  \<open>ROOM_UNAVAILABLE roomId startTime endTime conflictingBookingId timestamp\<close>.
\<close>

datatype event =
    BOOKING_CREATED Booking time
  | BOOKING_CANCELLED Booking "string option" time
  | ROOM_UNAVAILABLE string time time string time

section \<open>Cache layer\<close>

text \<open>
  The service stores two kinds of values: a booking under \<open>booking:<id>\<close> and a booking id
  under \<open>idempotency:<token>\<close>. An entry carries its expiry instant; a read after that
  instant is a miss (\<open>InMemoryCache.get\<close>: \<open>Date.now() > entry.expiresAt\<close>), and a write
  with a TTL in seconds expires at \<open>now + ttl * 1000\<close> (the configured TTLs are
  positive numbers of seconds). The cache is connected:
  \<open>RedisCache\<close> turns a connection error into a miss on a read and into nothing on a
  write, and that degraded mode is not part of the model.
\<close>

datatype cache_value = CachedBooking Booking | CachedId string

type_synonym cache_store = "string \<rightharpoonup> cache_value \<times> time"

definition cache_get :: "cache_store \<Rightarrow> time \<Rightarrow> string \<Rightarrow> cache_value option" where
  "cache_get c now key =
     (case c key of
        None \<Rightarrow> None
      | Some (v, expiresAt) \<Rightarrow> if now > expiresAt then None else Some v)"

definition cache_set :: "cache_store \<Rightarrow> time \<Rightarrow> string \<Rightarrow> cache_value \<Rightarrow> int \<Rightarrow> cache_store" where
  "cache_set c now key v ttlSeconds = c(key \<mapsto> (v, now + ttlSeconds * 1000))"

definition cache_delete :: "cache_store \<Rightarrow> string \<Rightarrow> cache_store" where
  "cache_delete c key = c(key := None)"

text \<open>
  The typed reads \<open>cache.get<Booking>\<close> and \<open>cache.get<string>\<close>: a value of the other
  shape under the key is not what the caller's type says, and counts as a miss. The
  service never writes one: in every reachable state the entries have the shape of their
  keys (\<open>reachable_cacheShaped\<close> below).
\<close>

definition cache_get_booking :: "cache_store \<Rightarrow> time \<Rightarrow> string \<Rightarrow> Booking option" where
  "cache_get_booking c now key =
     (case cache_get c now key of Some (CachedBooking b) \<Rightarrow> Some b | _ \<Rightarrow> None)"

definition cache_get_id :: "cache_store \<Rightarrow> time \<Rightarrow> string \<Rightarrow> string option" where
  "cache_get_id c now key =
     (case cache_get c now key of Some (CachedId i) \<Rightarrow> Some i | _ \<Rightarrow> None)"

definition bookingKey :: "string \<Rightarrow> string" where
  "bookingKey i = ''booking:'' @ i"

definition idempotencyCacheKey :: "string \<Rightarrow> string" where
  "idempotencyCacheKey k = ''idempotency:'' @ k"

section \<open>Booking store (PostgresBookingRepository)\<close>

text \<open>
  The \<open>bookings\<close> table is the list of its rows in the order the store returns them.
  \<open>truthy\<close> is the JavaScript test \<open>if (s)\<close> on a \<open>string | undefined\<close>: the empty
  string counts as absent.
\<close>

definition truthy :: "string option \<Rightarrow> bool" where
  "truthy s = (case s of None \<Rightarrow> False | Some x \<Rightarrow> x \<noteq> [])"

definition orNull :: "string option \<Rightarrow> string option" where
  "orNull s = (if truthy s then s else None)"

definition findById :: "Booking list \<Rightarrow> string \<Rightarrow> Booking option" where
  "findById bs i = find (\<lambda>b. id_b b = i) bs"

definition findByIdempotencyKey :: "Booking list \<Rightarrow> string \<Rightarrow> Booking option" where
  "findByIdempotencyKey bs k = find (\<lambda>b. idempotencyKey b = Some k) bs"

definition findConflictingBookings ::
  "Booking list \<Rightarrow> string \<Rightarrow> time \<Rightarrow> time \<Rightarrow> string option \<Rightarrow> Booking list" where
  "findConflictingBookings bs rid start end excludeBookingId =
     filter (\<lambda>b. roomId b = rid \<and> status b \<noteq> CANCELLED
                 \<and> startTime b < end \<and> endTime b > start
                 \<and> (truthy excludeBookingId \<longrightarrow> Some (id_b b) \<noteq> excludeBookingId)) bs"

text \<open>
  \<open>create\<close> inserts a row with status \<open>CONFIRMED\<close>, the given fresh id (\<open>uuidv4()\<close>) and
  the creation instant for both timestamps. The table has a primary key on \<open>id\<close> and a
  \<open>UNIQUE\<close> constraint on \<open>idempotency_key\<close> (NULLs are not compared); the insert
  raises when either is violated. Other failures of the store (a lost connection, a
  string wider than its column) are not part of the model.
\<close>

definition create ::
  "Booking list \<Rightarrow> string \<Rightarrow> time \<Rightarrow> CreateBookingData \<Rightarrow> db_error + Booking \<times> Booking list" where
  "create bs newId now d =
     (let row = \<lparr> roomId = roomId d, userId = userId d, title = title d,
                  description = orNull (description d),
                  startTime = startTime d, endTime = endTime d,
                  idempotencyKey = orNull (idempotencyKey d),
                  id_b = newId, status = CONFIRMED, createdAt = now, updatedAt = now,
                  cancelledAt = None \<rparr>
      in if newId \<in> id_b ` set bs then Inl (UniqueViolation ''bookings_pkey'')
         else if idempotencyKey row \<noteq> None \<and> idempotencyKey row \<in> idempotencyKey ` set bs
         then Inl (UniqueViolation ''bookings_idempotency_key_key'')
         else Inr (row, bs @ [row]))"

definition applyPatch :: "BookingPatch \<Rightarrow> time \<Rightarrow> Booking \<Rightarrow> Booking" where
  "applyPatch p now b =
     b\<lparr> title := (case title_p p of Some t \<Rightarrow> t | None \<Rightarrow> title b),
        description := (case description_p p of Some s \<Rightarrow> Some s | None \<Rightarrow> description b),
        status := (case status_p p of Some s \<Rightarrow> s | None \<Rightarrow> status b),
        cancelledAt := (case cancelledAt_p p of Some t \<Rightarrow> Some t | None \<Rightarrow> cancelledAt b),
        updatedAt := now \<rparr>"

definition update ::
  "Booking list \<Rightarrow> time \<Rightarrow> string \<Rightarrow> BookingPatch \<Rightarrow> Booking option \<times> Booking list" where
  "update bs now i p =
     (if title_p p = None \<and> description_p p = None \<and> status_p p = None \<and> cancelledAt_p p = None
      then (findById bs i, bs)
      else let bs' = map (\<lambda>b. if id_b b = i then applyPatch p now b else b) bs
           in (findById bs' i, bs'))"

definition matchesFilter :: "BookingFilter \<Rightarrow> Booking \<Rightarrow> bool" where
  "matchesFilter f b =
     ((truthy (roomId_f f) \<longrightarrow> Some (roomId b) = roomId_f f)
      \<and> (truthy (userId_f f) \<longrightarrow> Some (userId b) = userId_f f)
      \<and> (case status_f f of None \<Rightarrow> True | Some s \<Rightarrow> status b = s)
      \<and> (case startTimeFrom f of None \<Rightarrow> True | Some t \<Rightarrow> startTime b \<ge> t)
      \<and> (case startTimeTo f of None \<Rightarrow> True | Some t \<Rightarrow> startTime b \<le> t))"

definition findAll :: "Booking list \<Rightarrow> BookingFilter option \<Rightarrow> Booking list" where
  "findAll bs filter' =
     sort_key startTime
       (case filter' of None \<Rightarrow> bs | Some f \<Rightarrow> filter (matchesFilter f) bs)"

section \<open>Resource directory (PostgresRoomRepository.findById)\<close>

definition findById_room :: "Room list \<Rightarrow> string \<Rightarrow> Room option" where
  "findById_room rs i = find (\<lambda>r. id_r r = i) rs"

section \<open>Admission engine (BookingService)\<close>

text \<open>
  The state the service works on: the two tables, the cache, the configured TTLs
  (seconds), the events handed to \<open>eventBus.emit\<close> (oldest first) and the statements sent
  to the store (oldest first). Every operation takes the instant \<open>now\<close> its clock reads
  return; \<open>createBooking\<close> also takes the id that \<open>uuidv4()\<close> draws. Whether the
  broker delivers an event is outside the model: \<open>emit\<close> reports a closed channel by its
  result, and the service does not look at it.
\<close>

datatype query =
    SelectRoomById string
  | SelectBookingById string
  | SelectBookingByKey string
  | SelectBookings "BookingFilter option"
  | SelectConflicts string time time
  | InsertBooking string
  | UpdateBooking string

record Config =
  ttl :: int
  idempotencyTtl :: int

record world =
  rooms :: "Room list"
  bookings :: "Booking list"
  cache :: cache_store
  config :: Config
  emitted :: "event list"
  queries :: "query list"

definition sent :: "query \<Rightarrow> world \<Rightarrow> world" where
  "sent q st = st\<lparr> queries := queries st @ [q] \<rparr>"

definition emit :: "event \<Rightarrow> world \<Rightarrow> world" where
  "emit e st = st\<lparr> emitted := emitted st @ [e] \<rparr>"

definition validateBookingTimes :: "time \<Rightarrow> time \<Rightarrow> time \<Rightarrow> error + unit" where
  "validateBookingTimes now start end =
     (if start < now then Inl (InvalidBookingTimeError ''Start time cannot be in the past'')
      else if end \<le> start then Inl (InvalidBookingTimeError ''End time must be after start time'')
      else let durationMs = end - start;
               maxDurationMs = 8 * 60 * 60 * 1000;
               minDurationMs = 15 * 60 * 1000
           in if durationMs > maxDurationMs
              then Inl (InvalidBookingTimeError ''Booking duration cannot exceed 8 hours'')
              else if durationMs < minDurationMs
              then Inl (InvalidBookingTimeError ''Booking duration must be at least 15 minutes'')
              else Inr ())"

definition checkIdempotency :: "world \<Rightarrow> time \<Rightarrow> string \<Rightarrow> Booking option \<times> world" where
  "checkIdempotency st now key =
     (case cache_get_id (cache st) now (idempotencyCacheKey key) of
        Some cachedBookingId \<Rightarrow>
          if cachedBookingId \<noteq> []
          then (findById (bookings st) cachedBookingId, sent (SelectBookingById cachedBookingId) st)
          else (findByIdempotencyKey (bookings st) key, sent (SelectBookingByKey key) st)
      | None \<Rightarrow> (findByIdempotencyKey (bookings st) key, sent (SelectBookingByKey key) st))"

text \<open>
  \<open>admit\<close> is the body of \<open>createBooking\<close> after the idempotency step (source lines
  74 to 125): resource lookup, interval validation, conflict check, insert, the two cache
  writes and the event.
\<close>

definition admit :: "world \<Rightarrow> CreateBookingData \<Rightarrow> time \<Rightarrow> string \<Rightarrow> (error + Booking) \<times> world" where
  "admit st d now newId =
     (let st1 = sent (SelectRoomById (roomId d)) st in
      case findById_room (rooms st1) (roomId d) of
        None \<Rightarrow> (Inl (RoomNotFoundError (roomId d)), st1)
      | Some room \<Rightarrow>
         (case validateBookingTimes now (startTime d) (endTime d) of
            Inl e \<Rightarrow> (Inl e, st1)
          | Inr _ \<Rightarrow>
             (let conflicts = findConflictingBookings (bookings st1) (roomId d)
                                (startTime d) (endTime d) None;
                  st2 = sent (SelectConflicts (roomId d) (startTime d) (endTime d)) st1
              in case conflicts of
                   c # _ \<Rightarrow>
                     (Inl (RoomUnavailableError (roomId d) (startTime d) (endTime d)),
                      emit (ROOM_UNAVAILABLE (roomId d) (startTime d) (endTime d) (id_b c) now) st2)
                 | [] \<Rightarrow>
                     (let st3 = sent (InsertBooking newId) st2 in
                      case create (bookings st3) newId now d of
                        Inl e \<Rightarrow> (Inl (DatabaseError e), st3)
                      | Inr (booking, bs') \<Rightarrow>
                         (let st4 = st3\<lparr> bookings := bs' \<rparr>;
                              st5 = (case idempotencyKey d of
                                       Some k \<Rightarrow>
                                         if k \<noteq> []
                                         then st4\<lparr> cache := cache_set (cache st4) now
                                                   (idempotencyCacheKey k) (CachedId (id_b booking))
                                                   (idempotencyTtl (config st4)) \<rparr>
                                         else st4
                                     | None \<Rightarrow> st4);
                              st6 = st5\<lparr> cache := cache_set (cache st5) now
                                          (bookingKey (id_b booking)) (CachedBooking booking)
                                          (ttl (config st5)) \<rparr>
                          in (Inr booking, emit (BOOKING_CREATED booking now) st6))))))"

definition createBooking ::
  "world \<Rightarrow> CreateBookingData \<Rightarrow> time \<Rightarrow> string \<Rightarrow> (error + Booking) \<times> world" where
  "createBooking st d now newId =
     (case idempotencyKey d of
        Some k \<Rightarrow>
          if k \<noteq> []
          then (case checkIdempotency st now k of
                  (Some existingBooking, st1) \<Rightarrow> (Inr existingBooking, st1)
                | (None, st1) \<Rightarrow> admit st1 d now newId)
          else admit st d now newId
      | None \<Rightarrow> admit st d now newId)"

definition getBooking :: "world \<Rightarrow> string \<Rightarrow> time \<Rightarrow> (error + Booking) \<times> world" where
  "getBooking st i now =
     (case cache_get_booking (cache st) now (bookingKey i) of
        Some cachedBooking \<Rightarrow> (Inr cachedBooking, st)
      | None \<Rightarrow>
         (let st1 = sent (SelectBookingById i) st in
          case findById (bookings st1) i of
            None \<Rightarrow> (Inl (BookingNotFoundError i), st1)
          | Some booking \<Rightarrow>
              (Inr booking,
               st1\<lparr> cache := cache_set (cache st1) now (bookingKey i) (CachedBooking booking)
                                (ttl (config st1)) \<rparr>)))"

definition getBookings :: "world \<Rightarrow> BookingFilter option \<Rightarrow> Booking list \<times> world" where
  "getBookings st filter' = (findAll (bookings st) filter', sent (SelectBookings filter') st)"

definition cancelBooking ::
  "world \<Rightarrow> string \<Rightarrow> string option \<Rightarrow> time \<Rightarrow> (error + Booking) \<times> world" where
  "cancelBooking st i reason now =
     (let st1 = sent (SelectBookingById i) st in
      case findById (bookings st1) i of
        None \<Rightarrow> (Inl (BookingNotFoundError i), st1)
      | Some booking \<Rightarrow>
          if status booking = CANCELLED then (Inl (BookingAlreadyCancelledError i), st1)
          else
            (let (updatedBooking, bs') =
                   update (bookings st1) now i
                     \<lparr> title_p = None, description_p = None,
                       status_p = Some CANCELLED, cancelledAt_p = Some now \<rparr>;
                 st2 = sent (UpdateBooking i) (st1\<lparr> bookings := bs' \<rparr>)
             in case updatedBooking of
                  None \<Rightarrow> (Inl (BookingNotFoundError i), st2)
                | Some u \<Rightarrow>
                    (Inr u,
                     emit (BOOKING_CANCELLED u reason now)
                       (st2\<lparr> cache := cache_delete (cache st2) (bookingKey i) \<rparr>))))"

section \<open>The calls of the service, one await at a time\<close>

text \<open>
  Every method of the service is asynchronous: while a call waits at one of its awaits,
  other calls run. \<open>createBooking\<close> awaits the cache read of the token (source line
  201), the lookup of the booking by the cached id (203) or by the token (207), the room
  lookup (75), the conflict query (84), the insert (103), the cache write of the token
  (107) and the cache write of the booking (115); \<open>getBooking\<close> awaits the cache read
  (133), the lookup (140) and the cache write (146); \<open>getBookings\<close> awaits the listing
  (155); \<open>cancelBooking\<close> awaits the lookup (162), the update (172) and the cache delete
  (182). No transaction spans two awaits, and the schema has no exclusion constraint on
  the intervals of a room: each awaited operation acts on the store and the cache as the
  other calls have left them.

  A request is one call of the service with its arguments.
\<close>

datatype request =
    Create CreateBookingData
  | Get string
  | List "BookingFilter option"
  | Cancel string "string option"

text \<open>
  A call in flight is at one of its awaits, with the local variables it still needs: the
  request, the token, the booking it has inserted or read, and for the update of
  \<open>cancelBooking\<close> the instant \<open>new Date()\<close> at which the patch was built, after the
  lookup returned.
\<close>

datatype pc =
    CreateCacheGet CreateBookingData string
  | CreateFindById CreateBookingData string
  | CreateFindByKey CreateBookingData string
  | CreateFindRoom CreateBookingData
  | CreateFindConflicts CreateBookingData
  | CreateInsert CreateBookingData
  | CreateCacheToken CreateBookingData string Booking
  | CreateCacheBooking CreateBookingData Booking
  | GetCacheGet string
  | GetFindById string
  | GetCacheSet string Booking
  | ListFindAll "BookingFilter option"
  | CancelFindById string "string option"
  | CancelUpdate string "string option" time
  | CancelCacheDelete string "string option" Booking

datatype outcome = Answered "error + Booking" | Listed "Booking list"

datatype progress = Next pc | Done outcome

text \<open>
  The first await of a call. \<open>createBooking\<close> starts with the idempotency step when the
  request carries a token, and with the room lookup otherwise.
\<close>

definition entry :: "request \<Rightarrow> pc" where
  "entry r =
     (case r of
        Create d \<Rightarrow>
          (case idempotencyKey d of
             Some k \<Rightarrow> if k \<noteq> [] then CreateCacheGet d k else CreateFindRoom d
           | None \<Rightarrow> CreateFindRoom d)
      | Get i \<Rightarrow> GetCacheGet i
      | List f \<Rightarrow> ListFindAll f
      | Cancel i reason \<Rightarrow> CancelFindById i reason)"

text \<open>
  One step of a call in flight: the awaited operation on the cache or the store, then the
  synchronous code that follows it, up to the next await or to the end of the call. The
  instant is the one at which the step runs; \<open>newId\<close> is the id drawn for the row of the
  insert. Each equation repeats the lines of \<open>checkIdempotency\<close>, \<open>admit\<close>,
  \<open>getBooking\<close>, \<open>getBookings\<close> and \<open>cancelBooking\<close> above that lie between two awaits.
\<close>

fun step :: "world \<Rightarrow> pc \<Rightarrow> time \<Rightarrow> string \<Rightarrow> world \<times> progress" where
  "step st (CreateCacheGet d k) now newId =
     (st,
      case cache_get_id (cache st) now (idempotencyCacheKey k) of
        Some cachedBookingId \<Rightarrow>
          if cachedBookingId \<noteq> [] then Next (CreateFindById d cachedBookingId)
          else Next (CreateFindByKey d k)
      | None \<Rightarrow> Next (CreateFindByKey d k))"
| "step st (CreateFindById d cachedBookingId) now newId =
     (sent (SelectBookingById cachedBookingId) st,
      case findById (bookings st) cachedBookingId of
        Some existingBooking \<Rightarrow> Done (Answered (Inr existingBooking))
      | None \<Rightarrow> Next (CreateFindRoom d))"
| "step st (CreateFindByKey d k) now newId =
     (sent (SelectBookingByKey k) st,
      case findByIdempotencyKey (bookings st) k of
        Some existingBooking \<Rightarrow> Done (Answered (Inr existingBooking))
      | None \<Rightarrow> Next (CreateFindRoom d))"
| "step st (CreateFindRoom d) now newId =
     (sent (SelectRoomById (roomId d)) st,
      case findById_room (rooms st) (roomId d) of
        None \<Rightarrow> Done (Answered (Inl (RoomNotFoundError (roomId d))))
      | Some room \<Rightarrow>
         (case validateBookingTimes now (startTime d) (endTime d) of
            Inl e \<Rightarrow> Done (Answered (Inl e))
          | Inr _ \<Rightarrow> Next (CreateFindConflicts d)))"
| "step st (CreateFindConflicts d) now newId =
     (let st1 = sent (SelectConflicts (roomId d) (startTime d) (endTime d)) st in
      case findConflictingBookings (bookings st) (roomId d) (startTime d) (endTime d) None of
        c # _ \<Rightarrow>
          (emit (ROOM_UNAVAILABLE (roomId d) (startTime d) (endTime d) (id_b c) now) st1,
           Done (Answered (Inl (RoomUnavailableError (roomId d) (startTime d) (endTime d)))))
      | [] \<Rightarrow> (st1, Next (CreateInsert d)))"
| "step st (CreateInsert d) now newId =
     (let st1 = sent (InsertBooking newId) st in
      case create (bookings st) newId now d of
        Inl e \<Rightarrow> (st1, Done (Answered (Inl (DatabaseError e))))
      | Inr (booking, bs') \<Rightarrow>
          (st1\<lparr> bookings := bs' \<rparr>,
           Next (case idempotencyKey d of
                   Some k \<Rightarrow> if k \<noteq> [] then CreateCacheToken d k booking
                             else CreateCacheBooking d booking
                 | None \<Rightarrow> CreateCacheBooking d booking)))"
| "step st (CreateCacheToken d k booking) now newId =
     (st\<lparr> cache := cache_set (cache st) now (idempotencyCacheKey k) (CachedId (id_b booking))
                       (idempotencyTtl (config st)) \<rparr>,
      Next (CreateCacheBooking d booking))"
| "step st (CreateCacheBooking d booking) now newId =
     (emit (BOOKING_CREATED booking now)
        (st\<lparr> cache := cache_set (cache st) now (bookingKey (id_b booking)) (CachedBooking booking)
                          (ttl (config st)) \<rparr>),
      Done (Answered (Inr booking)))"
| "step st (GetCacheGet i) now newId =
     (st,
      case cache_get_booking (cache st) now (bookingKey i) of
        Some cachedBooking \<Rightarrow> Done (Answered (Inr cachedBooking))
      | None \<Rightarrow> Next (GetFindById i))"
| "step st (GetFindById i) now newId =
     (sent (SelectBookingById i) st,
      case findById (bookings st) i of
        None \<Rightarrow> Done (Answered (Inl (BookingNotFoundError i)))
      | Some booking \<Rightarrow> Next (GetCacheSet i booking))"
| "step st (GetCacheSet i booking) now newId =
     (st\<lparr> cache := cache_set (cache st) now (bookingKey i) (CachedBooking booking)
                       (ttl (config st)) \<rparr>,
      Done (Answered (Inr booking)))"
| "step st (ListFindAll f) now newId =
     (sent (SelectBookings f) st, Done (Listed (findAll (bookings st) f)))"
| "step st (CancelFindById i reason) now newId =
     (sent (SelectBookingById i) st,
      case findById (bookings st) i of
        None \<Rightarrow> Done (Answered (Inl (BookingNotFoundError i)))
      | Some booking \<Rightarrow>
          if status booking = CANCELLED then Done (Answered (Inl (BookingAlreadyCancelledError i)))
          else Next (CancelUpdate i reason now))"
| "step st (CancelUpdate i reason t) now newId =
     (case update (bookings st) t i
             \<lparr> title_p = None, description_p = None,
               status_p = Some CANCELLED, cancelledAt_p = Some t \<rparr> of
        (updatedBooking, bs') \<Rightarrow>
          (sent (UpdateBooking i) (st\<lparr> bookings := bs' \<rparr>),
           case updatedBooking of
             None \<Rightarrow> Done (Answered (Inl (BookingNotFoundError i)))
           | Some u \<Rightarrow> Next (CancelCacheDelete i reason u)))"
| "step st (CancelCacheDelete i reason u) now newId =
     (emit (BOOKING_CANCELLED u reason now)
        (st\<lparr> cache := cache_delete (cache st) (bookingKey i) \<rparr>),
      Done (Answered (Inr u)))"

text \<open>
  A call that runs alone, from a program point to its answer, every step at the same
  instant; the fuel bounds the number of steps. A call of \<open>createBooking\<close> takes at most
  seven steps, one of \<open>getBooking\<close> or \<open>cancelBooking\<close> at most three, one of
  \<open>getBookings\<close> one.
\<close>

fun run :: "nat \<Rightarrow> world \<Rightarrow> pc \<Rightarrow> time \<Rightarrow> string \<Rightarrow> (outcome \<times> world) option" where
  "run 0 st p now newId = None"
| "run (Suc n) st p now newId =
     (case step st p now newId of
        (st', Done out) \<Rightarrow> Some (out, st')
      | (st', Next p') \<Rightarrow> run n st' p' now newId)"


section \<open>Availability calculator (PostgresRoomRepository)\<close>

text \<open>
  \<open>Date.setHours\<close> works in local time. The local zone is a fixed offset \<open>tz\<close>
  (milliseconds east of UTC) over the day in question; \<open>startOfLocalDay\<close> is local
  midnight of the day that holds the instant.
\<close>

definition startOfLocalDay :: "int \<Rightarrow> time \<Rightarrow> time" where
  "startOfLocalDay tz t = t - (t + tz) mod 86400000"

definition setHours :: "int \<Rightarrow> time \<Rightarrow> int \<Rightarrow> int \<Rightarrow> int \<Rightarrow> int \<Rightarrow> time" where
  "setHours tz t h m s ms = startOfLocalDay tz t + ((h * 60 + m) * 60 + s) * 1000 + ms"

text \<open>
  The \<open>for\<close> loop of \<open>calculateAvailableSlots\<close>, on the pair of its two variables:
  the slots pushed so far (\<open>availableSlots\<close> in the source) and \<open>currentStart\<close>.
\<close>

fun calculateAvailableSlots_loop ::
  "TimeSlot list \<Rightarrow> TimeSlot list \<times> time \<Rightarrow> TimeSlot list \<times> time" where
  "calculateAvailableSlots_loop [] (slots, currentStart) = (slots, currentStart)"
| "calculateAvailableSlots_loop (booked # rest) (slots, currentStart) =
     calculateAvailableSlots_loop rest
       (if currentStart < slotStart booked
        then slots @ [\<lparr> slotStart = currentStart, slotEnd = slotStart booked \<rparr>]
        else slots,
        max currentStart (slotEnd booked))"

definition calculateAvailableSlots :: "time \<Rightarrow> time \<Rightarrow> TimeSlot list \<Rightarrow> TimeSlot list" where
  "calculateAvailableSlots dayStart dayEnd booked =
     (if booked = [] then [\<lparr> slotStart = dayStart, slotEnd = dayEnd \<rparr>]
      else case calculateAvailableSlots_loop booked ([], dayStart) of
             (slots, currentStart) \<Rightarrow>
               if currentStart < dayEnd
               then slots @ [\<lparr> slotStart = currentStart, slotEnd = dayEnd \<rparr>]
               else slots)"

text \<open>
  \<open>getAvailability\<close> reads the two tables. Its query keeps the rows of the room that are
  not cancelled and start within the day, ordered by start time.
\<close>

definition getAvailability ::
  "Room list \<Rightarrow> Booking list \<Rightarrow> int \<Rightarrow> string \<Rightarrow> time \<Rightarrow> RoomAvailability option" where
  "getAvailability rs bs tz rid date =
     (case findById_room rs rid of
        None \<Rightarrow> None
      | Some room \<Rightarrow>
         (let startOfDay = setHours tz date 0 0 0 0;
              endOfDay = setHours tz date 23 59 59 999;
              rows = sort_key startTime
                       (filter (\<lambda>b. roomId b = rid \<and> status b \<noteq> CANCELLED
                                     \<and> startTime b \<ge> startOfDay \<and> startTime b < endOfDay) bs);
              booked = map (\<lambda>row. \<lparr> slotStart = startTime row, slotEnd = endTime row \<rparr>) rows;
              businessStart = setHours tz date 8 0 0 0;
              businessEnd = setHours tz date 18 0 0 0
          in Some \<lparr> roomId_a = rid, date_a = date,
                    availableSlots = calculateAvailableSlots businessStart businessEnd booked,
                    bookedSlots = booked \<rparr>))"

section \<open>Notions used by the properties\<close>

text \<open>
  The idempotency step of \<open>createBooking\<close> (source lines 63 to 72), split into the
  booking it resolves and the state it leaves. A request carries a token when the field
  is a non-empty string: that is the test the source applies.
\<close>

definition resolveToken :: "world \<Rightarrow> CreateBookingData \<Rightarrow> time \<Rightarrow> Booking option" where
  "resolveToken st d now =
     (case idempotencyKey d of
        Some k \<Rightarrow> if k \<noteq> [] then fst (checkIdempotency st now k) else None
      | None \<Rightarrow> None)"

definition afterTokenStep :: "world \<Rightarrow> CreateBookingData \<Rightarrow> time \<Rightarrow> world" where
  "afterTokenStep st d now =
     (case idempotencyKey d of
        Some k \<Rightarrow> if k \<noteq> [] then snd (checkIdempotency st now k) else st
      | None \<Rightarrow> st)"

text \<open>
  Two bookings are in conflict when they are on the same room, neither is cancelled and
  their intervals pass the overlap test of \<open>findConflictingBookings\<close>.
\<close>

definition conflict :: "Booking \<Rightarrow> Booking \<Rightarrow> bool" where
  "conflict a b \<longleftrightarrow>
     roomId a = roomId b \<and> status a \<noteq> CANCELLED \<and> status b \<noteq> CANCELLED
     \<and> startTime a < endTime b \<and> startTime b < endTime a"


text \<open>
  The bookings a request would collide with: those of its room that are not cancelled and
  overlap its interval.
\<close>

definition collides :: "CreateBookingData \<Rightarrow> Booking \<Rightarrow> bool" where
  "collides d x \<longleftrightarrow>
     roomId x = roomId d \<and> status x \<noteq> CANCELLED
     \<and> startTime x < endTime d \<and> endTime x > startTime d"

text \<open>
  The states the service reaches from an empty store and an empty cache when its calls
  run one after another, each to its end before the next one starts, while the resource
  directory changes and cache entries are evicted.
\<close>

inductive serial :: "world \<Rightarrow> bool" where
  start: "bookings st = [] \<Longrightarrow> cache st = Map.empty \<Longrightarrow> serial st"
| create: "serial st \<Longrightarrow> serial (snd (createBooking st d now newId))"
| get: "serial st \<Longrightarrow> serial (snd (getBooking st i now))"
| list: "serial st \<Longrightarrow> serial (snd (getBookings st f))"
| cancel: "serial st \<Longrightarrow> serial (snd (cancelBooking st i reason now))"
| directory: "serial st \<Longrightarrow> serial (st\<lparr> rooms := rs \<rparr>)"
| evict: "serial st \<Longrightarrow> serial (st\<lparr> cache := cache_delete (cache st) key \<rparr>)"

text \<open>
  The states the service reaches when its calls interleave at their awaits.
  \<open>inflight st calls\<close> holds when the service can be in state \<open>st\<close> with the calls in
  flight at the program points \<open>calls\<close>: from an empty store and an empty cache, a call
  arrives at any moment, any call in flight takes its next step at any instant and with
  any id offered, and goes on or ends with it, while the resource directory changes and
  cache entries are evicted. A state is reachable when it is the state of the service
  with some calls in flight, or none.
\<close>

inductive inflight :: "world \<Rightarrow> pc list \<Rightarrow> bool" where
  init: "bookings st = [] \<Longrightarrow> cache st = Map.empty \<Longrightarrow> inflight st []"
| arrive: "inflight st calls \<Longrightarrow> inflight st (entry r # calls)"
| advance: "inflight st (xs @ p # ys) \<Longrightarrow> step st p now newId = (st', Next p') \<Longrightarrow>
            inflight st' (xs @ p' # ys)"
| finish: "inflight st (xs @ p # ys) \<Longrightarrow> step st p now newId = (st', Done out) \<Longrightarrow>
           inflight st' (xs @ ys)"
| directory: "inflight st calls \<Longrightarrow> inflight (st\<lparr> rooms := rs \<rparr>) calls"
| evict: "inflight st calls \<Longrightarrow> inflight (st\<lparr> cache := cache_delete (cache st) key \<rparr>) calls"

definition reachable :: "world \<Rightarrow> bool" where
  "reachable st \<longleftrightarrow> (\<exists>calls. inflight st calls)"

text \<open>
  What holds of the stored tokens and ids in every reachable state: ids are distinct,
  a token belongs to one booking, no stored token is empty, and a cached token points to
  the booking that carries it.
\<close>

definition consistent :: "world \<Rightarrow> bool" where
  "consistent st \<longleftrightarrow>
     distinct (map id_b (bookings st))
     \<and> (\<forall>a \<in> set (bookings st). \<forall>b \<in> set (bookings st).
          idempotencyKey a = idempotencyKey b \<and> idempotencyKey a \<noteq> None \<longrightarrow> a = b)
     \<and> (\<forall>b \<in> set (bookings st). idempotencyKey b \<noteq> Some [])
     \<and> (\<forall>k i e. cache st (idempotencyCacheKey k) = Some (CachedId i, e) \<longrightarrow>
          (\<exists>b \<in> set (bookings st). id_b b = i \<and> idempotencyKey b = Some k))"

text \<open>
  What a call in flight relies on at its program point: a call about to cache the token
  of the booking it has inserted finds a row with that id and that token in the store.
\<close>

definition pendingOk :: "world \<Rightarrow> pc \<Rightarrow> bool" where
  "pendingOk st p =
     (case p of
        CreateCacheToken d k b \<Rightarrow>
          (\<exists>x \<in> set (bookings st). id_b x = id_b b \<and> idempotencyKey x = Some k)
      | _ \<Rightarrow> True)"

text \<open>
  Every cache entry has the shape of its key: a booking under \<open>booking:<id>\<close>, a
  booking id under \<open>idempotency:<token>\<close>.
\<close>

definition cacheShaped :: "world \<Rightarrow> bool" where
  "cacheShaped st \<longleftrightarrow>
     (\<forall>key v e. cache st key = Some (v, e) \<longrightarrow>
        (\<exists>i b. key = bookingKey i \<and> v = CachedBooking b)
        \<or> (\<exists>k i. key = idempotencyCacheKey k \<and> v = CachedId i))"

text \<open>
  The free slots as the specification words them: walk a cursor from the window start
  over the booked intervals, emit the gap before an interval when there is one, move the
  cursor to the later of itself and the interval's end, and emit what is left of the
  window after the last interval.
\<close>

fun freeSlotsWalk :: "time \<Rightarrow> time \<Rightarrow> TimeSlot list \<Rightarrow> TimeSlot list" where
  "freeSlotsWalk cursor windowEnd [] =
     (if cursor < windowEnd then [\<lparr> slotStart = cursor, slotEnd = windowEnd \<rparr>] else [])"
| "freeSlotsWalk cursor windowEnd (interval # rest) =
     (if cursor < slotStart interval
      then [\<lparr> slotStart = cursor, slotEnd = slotStart interval \<rparr>] else [])
     @ freeSlotsWalk (max cursor (slotEnd interval)) windowEnd rest"

text \<open>
  A slot is the half-open set of instants \<open>[start, end)\<close>; clipping a slot to a window
  keeps the part of it inside the window.
\<close>

definition instants :: "TimeSlot \<Rightarrow> time set" where
  "instants s = {slotStart s ..< slotEnd s}"

definition clip :: "time \<Rightarrow> time \<Rightarrow> TimeSlot \<Rightarrow> TimeSlot" where
  "clip windowStart windowEnd s =
     \<lparr> slotStart = max windowStart (slotStart s), slotEnd = min windowEnd (slotEnd s) \<rparr>"

definition slotsOverlap :: "TimeSlot \<Rightarrow> TimeSlot \<Rightarrow> bool" where
  "slotsOverlap a b \<longleftrightarrow> slotStart a < slotEnd b \<and> slotStart b < slotEnd a"

fun nonOverlapping :: "TimeSlot list \<Rightarrow> bool" where
  "nonOverlapping [] = True"
| "nonOverlapping (s # ss) = ((\<forall>x \<in> set ss. \<not> slotsOverlap s x) \<and> nonOverlapping ss)"

text \<open>
  What a successful cancellation does to a row: the row with the given id gets the status
  \<open>CANCELLED\<close> and the two timestamps, every other row is left as it is.
\<close>

definition cancelRow :: "string \<Rightarrow> time \<Rightarrow> Booking \<Rightarrow> Booking" where
  "cancelRow i now b = (if id_b b = i then b\<lparr> status := CANCELLED, cancelledAt := Some now, updatedAt := now \<rparr> else b)"

section \<open>Example data\<close>

text \<open>
  One room, an empty store and cache, the default TTLs (300 s and 86400 s). Instants are
  milliseconds of 1 January 1970 UTC: 10:00 is 36000000 and 14:00 is 50400000.
\<close>

definition room1 :: Room where
  "room1 = \<lparr> id_r = ''R1'', name_r = ''Einstein'', capacity_r = 10, location_r = ''A2'',
             amenities_r = [''projector''], isActive_r = True,
             createdAt_r = 0, updatedAt_r = 0 \<rparr>"

definition world0 :: world where
  "world0 = \<lparr> rooms = [room1], bookings = [], cache = Map.empty,
              config = \<lparr> ttl = 300, idempotencyTtl = 86400 \<rparr>,
              emitted = [], queries = [] \<rparr>"

definition requestA :: CreateBookingData where
  "requestA = \<lparr> roomId = ''R1'', userId = ''u1'', title = ''A'', description = None,
                startTime = 36000000, endTime = 50400000, idempotencyKey = Some ''k1'' \<rparr>"

definition bookingA :: Booking where
  "bookingA = \<lparr> roomId = ''R1'', userId = ''u1'', title = ''A'', description = None,
                startTime = 36000000, endTime = 50400000, idempotencyKey = Some ''k1'',
                id_b = ''B1'', status = CONFIRMED, createdAt = 0, updatedAt = 0,
                cancelledAt = None \<rparr>"

text \<open>
  \<open>worldA\<close> holds booking A (10:00 to 14:00, token \<open>k1\<close>); request B asks for 10:30 to
  11:30 in the same room. \<open>worldStale\<close> holds booking A while the cache maps its token to
  an id that no row has; request C carries that token and asks for 15:00 to 16:00.
\<close>

definition requestB :: CreateBookingData where
  "requestB = \<lparr> roomId = ''R1'', userId = ''u2'', title = ''B'', description = None,
                startTime = 37800000, endTime = 41400000, idempotencyKey = None \<rparr>"

definition worldA :: world where
  "worldA = world0\<lparr> bookings := [bookingA] \<rparr>"

definition requestC :: CreateBookingData where
  "requestC = \<lparr> roomId = ''R1'', userId = ''u1'', title = ''A'', description = None,
                startTime = 54000000, endTime = 57600000, idempotencyKey = Some ''k1'' \<rparr>"

definition worldStale :: world where
  "worldStale = world0\<lparr> bookings := [bookingA],
                  cache := [idempotencyCacheKey ''k1'' \<mapsto> (CachedId ''gone'', 86400000)] \<rparr>"

text \<open>
  \<open>worldCancelled\<close> holds booking A cancelled at instant 5; \<open>worldCached\<close> has an empty
  store and booking A in the cache until instant 300000.
\<close>

definition worldCancelled :: world where
  "worldCancelled = world0\<lparr> bookings :=
      [bookingA\<lparr> status := CANCELLED, cancelledAt := Some 5, updatedAt := 5 \<rparr>] \<rparr>"

definition worldCached :: world where
  "worldCached = world0\<lparr> cache := [bookingKey ''B1'' \<mapsto> (CachedBooking bookingA, 300000)] \<rparr>"

text \<open>The outcome of a read that goes to the store.\<close>

definition fromStore :: "Booking list \<Rightarrow> string \<Rightarrow> error + Booking" where
  "fromStore bs i = (case findById bs i of None \<Rightarrow> Inl (BookingNotFoundError i) | Some b \<Rightarrow> Inr b)"

text \<open>\<open>worldBooked\<close> is the state after request A was admitted into \<open>world0\<close>.\<close>

definition worldBooked :: world where
  "worldBooked = snd (createBooking world0 requestA 0 ''B1'')"









section \<open>The steps of createBooking\<close>

lemma createBooking_replay:
  "resolveToken st d now = Some b \<Longrightarrow>
   createBooking st d now nid = (Inr b, afterTokenStep st d now)"
  by (auto simp: resolveToken_def afterTokenStep_def createBooking_def split: option.splits if_splits prod.splits)

lemma createBooking_admit:
  "resolveToken st d now = None \<Longrightarrow>
   createBooking st d now nid = admit (afterTokenStep st d now) d now nid"
  by (auto simp: resolveToken_def afterTokenStep_def createBooking_def split: option.splits if_splits prod.splits)

lemma afterTokenStep_fields [simp]:
  "rooms (afterTokenStep st d now) = rooms st"
  "bookings (afterTokenStep st d now) = bookings st"
  "cache (afterTokenStep st d now) = cache st"
  "config (afterTokenStep st d now) = config st"
  "emitted (afterTokenStep st d now) = emitted st"
  by (auto simp: afterTokenStep_def checkIdempotency_def sent_def split: option.splits)

lemma sent_fields [simp]:
  "rooms (sent q st) = rooms st"
  "bookings (sent q st) = bookings st"
  "cache (sent q st) = cache st"
  "config (sent q st) = config st"
  "emitted (sent q st) = emitted st"
  "queries (sent q st) = queries st @ [q]"
  by (simp_all add: sent_def)

lemma emit_fields [simp]:
  "rooms (emit e st) = rooms st"
  "bookings (emit e st) = bookings st"
  "cache (emit e st) = cache st"
  "config (emit e st) = config st"
  "emitted (emit e st) = emitted st @ [e]"
  "queries (emit e st) = queries st"
  by (simp_all add: emit_def)

lemma validateBookingTimes_order:
  "validateBookingTimes now s e =
     (if s < now then Inl (InvalidBookingTimeError ''Start time cannot be in the past'')
      else if e \<le> s then Inl (InvalidBookingTimeError ''End time must be after start time'')
      else if e - s > 28800000 then Inl (InvalidBookingTimeError ''Booking duration cannot exceed 8 hours'')
      else if e - s < 900000 then Inl (InvalidBookingTimeError ''Booking duration must be at least 15 minutes'')
      else Inr ())"
  by (simp add: validateBookingTimes_def Let_def)

lemma validateBookingTimes_error:
  "validateBookingTimes now s e = Inl err \<Longrightarrow> \<exists>msg. err = InvalidBookingTimeError msg"
  by (auto simp: validateBookingTimes_order split: if_splits)

lemma admit_room_missing:
  "findById_room (rooms st) (roomId d) = None \<Longrightarrow>
   admit st d now nid = (Inl (RoomNotFoundError (roomId d)), sent (SelectRoomById (roomId d)) st)"
  by (simp add: admit_def)

lemma admit_invalid:
  "findById_room (rooms st) (roomId d) = Some r \<Longrightarrow>
   validateBookingTimes now (startTime d) (endTime d) = Inl e \<Longrightarrow>
   admit st d now nid = (Inl e, sent (SelectRoomById (roomId d)) st)"
  by (simp add: admit_def)

lemma admit_conflict:
  "findById_room (rooms st) (roomId d) = Some r \<Longrightarrow>
   validateBookingTimes now (startTime d) (endTime d) = Inr u \<Longrightarrow>
   findConflictingBookings (bookings st) (roomId d) (startTime d) (endTime d) None = c # cs \<Longrightarrow>
   admit st d now nid =
     (Inl (RoomUnavailableError (roomId d) (startTime d) (endTime d)),
      emit (ROOM_UNAVAILABLE (roomId d) (startTime d) (endTime d) (id_b c) now)
        (sent (SelectConflicts (roomId d) (startTime d) (endTime d))
           (sent (SelectRoomById (roomId d)) st)))"
  by (simp add: admit_def)

lemma admit_insert_fails:
  "findById_room (rooms st) (roomId d) = Some r \<Longrightarrow>
   validateBookingTimes now (startTime d) (endTime d) = Inr u \<Longrightarrow>
   findConflictingBookings (bookings st) (roomId d) (startTime d) (endTime d) None = [] \<Longrightarrow>
   create (bookings st) nid now d = Inl e \<Longrightarrow>
   admit st d now nid =
     (Inl (DatabaseError e),
      sent (InsertBooking nid)
        (sent (SelectConflicts (roomId d) (startTime d) (endTime d))
           (sent (SelectRoomById (roomId d)) st)))"
  by (simp add: admit_def)

lemma admit_success:
  "findById_room (rooms st) (roomId d) = Some r \<Longrightarrow>
   validateBookingTimes now (startTime d) (endTime d) = Inr u \<Longrightarrow>
   findConflictingBookings (bookings st) (roomId d) (startTime d) (endTime d) None = [] \<Longrightarrow>
   create (bookings st) nid now d = Inr (b, bs') \<Longrightarrow>
   \<exists>st'. admit st d now nid = (Inr b, st') \<and> bookings st' = bs' \<and> rooms st' = rooms st
      \<and> config st' = config st
      \<and> emitted st' = emitted st @ [BOOKING_CREATED b now]
      \<and> queries st' = queries st @ [SelectRoomById (roomId d),
            SelectConflicts (roomId d) (startTime d) (endTime d), InsertBooking nid]
      \<and> cache st' = (let c1 = (if truthy (idempotencyKey d)
                                then cache_set (cache st) now (idempotencyCacheKey (the (idempotencyKey d)))
                                       (CachedId (id_b b)) (idempotencyTtl (config st))
                                else cache st)
                     in cache_set c1 now (bookingKey (id_b b)) (CachedBooking b) (ttl (config st)))"
  by (auto simp add: admit_def Let_def truthy_def split: option.splits)

lemma conflicts_iff:
  "findConflictingBookings bs (roomId d) (startTime d) (endTime d) None = filter (collides d) bs"
  unfolding findConflictingBookings_def collides_def[abs_def] by (simp add: truthy_def)

lemma filter_hd_find: "filter P xs = c # cs \<Longrightarrow> find P xs = Some c"
  by (induction xs) (auto split: if_splits)

lemma admit_after_validation:
  assumes "findById_room (rooms st) (roomId d) = Some r"
    and "validateBookingTimes now (startTime d) (endTime d) = Inr u"
  shows "\<exists>qs. queries (snd (admit st d now nid)) =
           queries st @ [SelectRoomById (roomId d),
                         SelectConflicts (roomId d) (startTime d) (endTime d)] @ qs
        \<and> (\<forall>msg. fst (admit st d now nid) \<noteq> Inl (InvalidBookingTimeError msg))"
proof (cases "findConflictingBookings (bookings st) (roomId d) (startTime d) (endTime d) None")
  case (Cons c cs)
  from admit_conflict[OF assms Cons] show ?thesis by simp
next
  case Nil
  show ?thesis
  proof (cases "create (bookings st) nid now d")
    case (Inl e)
    from admit_insert_fails[OF assms Nil Inl] show ?thesis by simp
  next
    case (Inr p)
    obtain row bs' where p: "p = (row, bs')" by (cases p)
    from admit_success[OF assms Nil Inr[unfolded p]] show ?thesis by auto
  qed
qed

lemma create_Inr:
  "create bs nid now d = Inr (row, bs') \<Longrightarrow>
     bs' = bs @ [row] \<and> roomId row = roomId d \<and> startTime row = startTime d
     \<and> endTime row = endTime d \<and> status row = CONFIRMED \<and> id_b row = nid
     \<and> userId row = userId d \<and> title row = title d
     \<and> idempotencyKey row = orNull (idempotencyKey d)
     \<and> nid \<notin> id_b ` set bs
     \<and> (idempotencyKey row \<noteq> None \<longrightarrow> idempotencyKey row \<notin> idempotencyKey ` set bs)"
  by (auto simp: create_def Let_def split: if_splits)

lemma admit_bookings:
  assumes "admit st d now nid = (r, st')"
  shows "bookings st' = bookings st \<and> isl r \<and> cache st' = cache st
       \<or> (\<exists>row. r = Inr row \<and> create (bookings st) nid now d = Inr (row, bookings st')
            \<and> (\<forall>x \<in> set (bookings st). \<not> collides d x)
            \<and> cache st' = cache_set (if truthy (idempotencyKey d)
                                then cache_set (cache st) now (idempotencyCacheKey (the (idempotencyKey d)))
                                       (CachedId (id_b row)) (idempotencyTtl (config st))
                                else cache st) now (bookingKey (id_b row)) (CachedBooking row) (ttl (config st)))"
proof (cases "findById_room (rooms st) (roomId d)")
  case None
  with assms show ?thesis by (auto simp: admit_room_missing)
next
  case (Some room)
  show ?thesis
  proof (cases "validateBookingTimes now (startTime d) (endTime d)")
    case (Inl e)
    with Some assms show ?thesis by (auto simp: admit_invalid)
  next
    case (Inr u)
    show ?thesis
    proof (cases "findConflictingBookings (bookings st) (roomId d) (startTime d) (endTime d) None")
      case (Cons c cs)
      with Some Inr assms show ?thesis by (auto simp: admit_conflict)
    next
      case Nil
      then have nc: "\<forall>x \<in> set (bookings st). \<not> collides d x"
        by (simp add: conflicts_iff filter_empty_conv)
      show ?thesis
      proof (cases "create (bookings st) nid now d")
        case (Inl e)
        with Some Inr Nil assms show ?thesis by (auto simp: admit_insert_fails)
      next
        case (Inr p)
        obtain row bs' where p: "p = (row, bs')" by (cases p)
        from admit_success[OF Some \<open>validateBookingTimes _ _ _ = Inr u\<close> Nil Inr[unfolded p]]
        obtain st'' where "admit st d now nid = (Inr row, st'')" "bookings st'' = bs'"
          and c: "cache st'' = (let c1 = (if truthy (idempotencyKey d)
                                then cache_set (cache st) now (idempotencyCacheKey (the (idempotencyKey d)))
                                       (CachedId (id_b row)) (idempotencyTtl (config st))
                                else cache st)
                     in cache_set c1 now (bookingKey (id_b row)) (CachedBooking row) (ttl (config st)))"
          by blast
        with assms Inr p nc show ?thesis by (auto simp: Let_def)
      qed
    qed
  qed
qed


section \<open>The steps of cancelBooking and getBooking\<close>

lemma findById_Some: "findById bs i = Some b \<Longrightarrow> id_b b = i \<and> b \<in> set bs"
  by (auto simp: findById_def find_Some_iff)

lemma applyPatch_fields [simp]:
  "id_b (applyPatch p now b) = id_b b"
  "roomId (applyPatch p now b) = roomId b"
  "userId (applyPatch p now b) = userId b"
  "startTime (applyPatch p now b) = startTime b"
  "endTime (applyPatch p now b) = endTime b"
  "idempotencyKey (applyPatch p now b) = idempotencyKey b"
  "createdAt (applyPatch p now b) = createdAt b"
  "updatedAt (applyPatch p now b) = now"
  by (simp_all add: applyPatch_def)

lemma cancelRow_fields [simp]:
  "id_b (cancelRow i now b) = id_b b"
  "roomId (cancelRow i now b) = roomId b"
  "userId (cancelRow i now b) = userId b"
  "title (cancelRow i now b) = title b"
  "description (cancelRow i now b) = description b"
  "startTime (cancelRow i now b) = startTime b"
  "endTime (cancelRow i now b) = endTime b"
  "idempotencyKey (cancelRow i now b) = idempotencyKey b"
  "createdAt (cancelRow i now b) = createdAt b"
  by (simp_all add: cancelRow_def)

lemma cancelRow_self:
  "id_b b = i \<Longrightarrow> cancelRow i now b = b\<lparr> status := CANCELLED, cancelledAt := Some now, updatedAt := now \<rparr>"
  by (simp add: cancelRow_def)

lemma update_cancel:
  "update bs now i \<lparr> title_p = None, description_p = None,
                       status_p = Some CANCELLED, cancelledAt_p = Some now \<rparr>
   = (findById (map (cancelRow i now) bs) i, map (cancelRow i now) bs)"
proof -
  have eq: "(\<lambda>b. if id_b b = i
                 then applyPatch \<lparr> title_p = None, description_p = None,
                        status_p = Some CANCELLED, cancelledAt_p = Some now \<rparr> now b
                 else b) = cancelRow i now"
    by (rule ext) (simp add: applyPatch_def cancelRow_def)
  show ?thesis by (simp add: update_def Let_def eq)
qed

lemma findById_map_cancel:
  "findById (map (cancelRow i now) bs) j = map_option (cancelRow i now) (findById bs j)"
  by (induction bs) (auto simp: findById_def)

lemma cancelBooking_success:
  assumes "findById (bookings st) i = Some b" and "status b \<noteq> CANCELLED"
  shows "cancelBooking st i reason now =
           (Inr (cancelRow i now b),
            emit (BOOKING_CANCELLED (cancelRow i now b) reason now)
              ((sent (UpdateBooking i)
                  ((sent (SelectBookingById i) st)\<lparr> bookings := map (cancelRow i now) (bookings st) \<rparr>))
               \<lparr> cache := cache_delete (cache st) (bookingKey i) \<rparr>))"
  using assms
  by (simp add: cancelBooking_def Let_def update_cancel findById_map_cancel)



lemma getBooking_bookings [simp]: "bookings (snd (getBooking st i now)) = bookings st"
  by (simp add: getBooking_def Let_def split: option.splits)

lemma getBookings_bookings [simp]: "bookings (snd (getBookings st f)) = bookings st"
  by (simp add: getBookings_def)

lemma getBooking_hit:
  assumes "cache st (bookingKey i) = Some (CachedBooking b, e)" and "now \<le> e"
  shows "getBooking st i now = (Inr b, st)"
  using assms by (simp add: getBooking_def cache_get_booking_def cache_get_def)

lemma getBooking_miss:
  assumes "cache_get_booking (cache st) now (bookingKey i) = None"
  shows "getBooking st i now =
     (case findById (bookings st) i of
        None \<Rightarrow> (Inl (BookingNotFoundError i), sent (SelectBookingById i) st)
      | Some b \<Rightarrow> (Inr b, (sent (SelectBookingById i) st)
           \<lparr> cache := (cache st)(bookingKey i \<mapsto> (CachedBooking b, now + ttl (config st) * 1000)) \<rparr>))"
  using assms by (simp add: getBooking_def Let_def cache_set_def split: option.splits)

section \<open>The no-overlap invariant\<close>

lemma conflict_sym: "conflict a b \<longleftrightarrow> conflict b a"
  by (auto simp: conflict_def)










section \<open>The invariant of ids, tokens and cached tokens\<close>

lemma idempotencyCacheKey_inj [simp]:
  "idempotencyCacheKey k = idempotencyCacheKey k' \<longleftrightarrow> k = k'"
  by (simp add: idempotencyCacheKey_def)

lemma consistentI:
  assumes "distinct (map id_b (bookings st))"
    and "\<forall>a \<in> set (bookings st). \<forall>b \<in> set (bookings st).
          idempotencyKey a = idempotencyKey b \<and> idempotencyKey a \<noteq> None \<longrightarrow> a = b"
    and "\<forall>b \<in> set (bookings st). idempotencyKey b \<noteq> Some []"
    and "\<forall>k i e. cache st (idempotencyCacheKey k) = Some (CachedId i, e) \<longrightarrow>
          (\<exists>b \<in> set (bookings st). id_b b = i \<and> idempotencyKey b = Some k)"
  shows "consistent st"
  unfolding consistent_def using assms by (intro conjI)

lemma consistentD:
  assumes "consistent st"
  shows "distinct (map id_b (bookings st))"
    and "\<forall>a \<in> set (bookings st). \<forall>b \<in> set (bookings st).
          idempotencyKey a = idempotencyKey b \<and> idempotencyKey a \<noteq> None \<longrightarrow> a = b"
    and "\<forall>b \<in> set (bookings st). idempotencyKey b \<noteq> Some []"
    and "\<forall>k i e. cache st (idempotencyCacheKey k) = Some (CachedId i, e) \<longrightarrow>
          (\<exists>b \<in> set (bookings st). id_b b = i \<and> idempotencyKey b = Some k)"
  using assms unfolding consistent_def by blast+

lemma consistent_weaken:
  assumes "consistent st" and "bookings st' = bookings st"
    and "\<And>k i e. cache st' (idempotencyCacheKey k) = Some (CachedId i, e) \<Longrightarrow>
                   cache st (idempotencyCacheKey k) = Some (CachedId i, e)"
  shows "consistent st'"
proof -
  note D = consistentD[OF assms(1)]
  have "\<forall>k i e. cache st' (idempotencyCacheKey k) = Some (CachedId i, e) \<longrightarrow>
          (\<exists>b \<in> set (bookings st). id_b b = i \<and> idempotencyKey b = Some k)"
    using D(4) assms(3) by blast
  with D(1-3) show ?thesis unfolding assms(2)[symmetric] by (intro consistentI)
qed

lemma consistent_insert:
  assumes "consistent st" and bs: "bookings st' = bookings st @ [row]"
    and fresh: "id_b row \<notin> id_b ` set (bookings st)"
    and key: "idempotencyKey row = orNull K"
    and uniq: "idempotencyKey row \<noteq> None \<longrightarrow> idempotencyKey row \<notin> idempotencyKey ` set (bookings st)"
    and c: "cache st' = cache_set (if truthy K
                                then cache_set (cache st) now (idempotencyCacheKey (the K))
                                       (CachedId (id_b row)) t1
                                else cache st) now (bookingKey (id_b row)) (CachedBooking row) t2"
  shows "consistent st'"
proof -
  note d = consistentD(1)[OF assms(1)] and u = consistentD(2)[OF assms(1)]
    and ne = consistentD(3)[OF assms(1)] and ch = consistentD(4)[OF assms(1)]
  have 1: "distinct (map id_b (bookings st'))" using d fresh bs by simp
  have 2: "\<forall>a \<in> set (bookings st'). \<forall>b \<in> set (bookings st').
          idempotencyKey a = idempotencyKey b \<and> idempotencyKey a \<noteq> None \<longrightarrow> a = b"
  proof (intro ballI impI)
    fix a b assume a: "a \<in> set (bookings st')" and b: "b \<in> set (bookings st')"
      and e: "idempotencyKey a = idempotencyKey b \<and> idempotencyKey a \<noteq> None"
    from a b bs have "a = row \<or> a \<in> set (bookings st)" "b = row \<or> b \<in> set (bookings st)"
      by auto
    then show "a = b"
    proof (elim disjE)
      assume "a = row" "b = row" then show ?thesis by simp
    next
      assume "a = row" "b \<in> set (bookings st)"
      with e uniq show ?thesis by (metis imageI)
    next
      assume "a \<in> set (bookings st)" "b = row"
      with e uniq show ?thesis by (metis imageI)
    next
      assume "a \<in> set (bookings st)" "b \<in> set (bookings st)"
      with e u show ?thesis by blast
    qed
  qed
  have 3: "\<forall>b \<in> set (bookings st'). idempotencyKey b \<noteq> Some []"
    using ne key bs by (auto simp: orNull_def truthy_def split: if_splits option.splits)
  have 4: "\<forall>k i e. cache st' (idempotencyCacheKey k) = Some (CachedId i, e) \<longrightarrow>
          (\<exists>b \<in> set (bookings st'). id_b b = i \<and> idempotencyKey b = Some k)"
  proof (intro allI impI)
    fix k i e assume h: "cache st' (idempotencyCacheKey k) = Some (CachedId i, e)"
    show "\<exists>b \<in> set (bookings st'). id_b b = i \<and> idempotencyKey b = Some k"
    proof (cases "truthy K \<and> k = the K")
      case True
      with h c have "i = id_b row" by (auto simp: cache_set_def split: if_splits)
      moreover from True key have "idempotencyKey row = Some k"
        by (auto simp: orNull_def truthy_def split: option.splits)
      ultimately show ?thesis using bs by auto
    next
      case False
      with h c have "cache st (idempotencyCacheKey k) = Some (CachedId i, e)"
        by (auto simp: cache_set_def split: if_splits)
      with ch bs show ?thesis by auto
    qed
  qed
  from 1 2 3 4 show ?thesis by (rule consistentI)
qed

lemma consistent_cancel:
  assumes "consistent st" and bs: "bookings st' = map (cancelRow i now) (bookings st)"
    and c: "\<And>k. cache st' k = cache st k \<or> cache st' k = None"
  shows "consistent st'"
proof -
  note d = consistentD(1)[OF assms(1)] and u = consistentD(2)[OF assms(1)]
    and ne = consistentD(3)[OF assms(1)] and ch = consistentD(4)[OF assms(1)]
  have 1: "distinct (map id_b (bookings st'))" using d bs by (simp add: comp_def)
  have 2: "\<forall>a \<in> set (bookings st'). \<forall>b \<in> set (bookings st').
          idempotencyKey a = idempotencyKey b \<and> idempotencyKey a \<noteq> None \<longrightarrow> a = b"
    using u bs by auto
  have 3: "\<forall>b \<in> set (bookings st'). idempotencyKey b \<noteq> Some []"
    using ne bs by auto
  have 4: "\<forall>k i e. cache st' (idempotencyCacheKey k) = Some (CachedId i, e) \<longrightarrow>
          (\<exists>b \<in> set (bookings st'). id_b b = i \<and> idempotencyKey b = Some k)"
  proof (intro allI impI)
    fix k i' e assume h: "cache st' (idempotencyCacheKey k) = Some (CachedId i', e)"
    with c[of "idempotencyCacheKey k"] have "cache st (idempotencyCacheKey k) = Some (CachedId i', e)"
      by auto
    with ch obtain b where "b \<in> set (bookings st)" "id_b b = i'" "idempotencyKey b = Some k" by blast
    then have "cancelRow i now b \<in> set (bookings st')" "id_b (cancelRow i now b) = i'"
      "idempotencyKey (cancelRow i now b) = Some k" using bs by auto
    then show "\<exists>b \<in> set (bookings st'). id_b b = i' \<and> idempotencyKey b = Some k" by blast
  qed
  from 1 2 3 4 show ?thesis by (rule consistentI)
qed

lemma consistent_admit:
  assumes "consistent st"
  shows "consistent (snd (admit st d now nid))"
proof -
  obtain r st' where a: "admit st d now nid = (r, st')" by (cases "admit st d now nid")
  from admit_bookings[OF a] show ?thesis
  proof
    assume "bookings st' = bookings st \<and> isl r \<and> cache st' = cache st"
    with a show ?thesis by (intro consistent_weaken[OF assms]) simp_all
  next
    assume "\<exists>row. r = Inr row \<and> create (bookings st) nid now d = Inr (row, bookings st')
            \<and> (\<forall>x \<in> set (bookings st). \<not> collides d x)
            \<and> cache st' = cache_set (if truthy (idempotencyKey d)
                                then cache_set (cache st) now (idempotencyCacheKey (the (idempotencyKey d)))
                                       (CachedId (id_b row)) (idempotencyTtl (config st))
                                else cache st) now (bookingKey (id_b row)) (CachedBooking row) (ttl (config st))"
    then obtain row where c: "create (bookings st) nid now d = Inr (row, bookings st')"
      and ca: "cache st' = cache_set (if truthy (idempotencyKey d)
                                then cache_set (cache st) now (idempotencyCacheKey (the (idempotencyKey d)))
                                       (CachedId (id_b row)) (idempotencyTtl (config st))
                                else cache st) now (bookingKey (id_b row)) (CachedBooking row) (ttl (config st))"
      by blast
    have f1: "bookings st' = bookings st @ [row]" using create_Inr[OF c] by simp
    have f2: "id_b row \<notin> id_b ` set (bookings st)" using create_Inr[OF c] by simp
    have f3: "idempotencyKey row = orNull (idempotencyKey d)" using create_Inr[OF c] by simp
    have f4: "idempotencyKey row \<noteq> None \<longrightarrow> idempotencyKey row \<notin> idempotencyKey ` set (bookings st)"
      using create_Inr[OF c] by (elim conjE) assumption
    from consistent_insert[OF assms f1 f2 f3 f4 ca] a show ?thesis by simp
  qed
qed

lemma consistent_afterTokenStep: "consistent st \<Longrightarrow> consistent (afterTokenStep st d now)"
  by (rule consistent_weaken) auto

lemma consistent_createBooking:
  assumes "consistent st"
  shows "consistent (snd (createBooking st d now nid))"
proof (cases "resolveToken st d now")
  case None
  then show ?thesis
    using consistent_admit[OF consistent_afterTokenStep[OF assms], of d now d now nid]
    by (simp add: createBooking_admit)
next
  case (Some b)
  then show ?thesis using consistent_afterTokenStep[OF assms] by (simp add: createBooking_replay)
qed





lemma cacheShaped_same: "cacheShaped st \<Longrightarrow> cache st' = cache st \<Longrightarrow> cacheShaped st'"
  by (simp add: cacheShaped_def)

lemma cacheShaped_delete:
  "cacheShaped st \<Longrightarrow> cache st' = cache_delete (cache st) key \<Longrightarrow> cacheShaped st'"
  by (simp add: cacheShaped_def cache_delete_def)

lemma cacheShaped_booking:
  assumes "cacheShaped st"
    and c: "cache st' = cache_set (cache st) now (bookingKey i) (CachedBooking b) t"
  shows "cacheShaped st'"
  unfolding cacheShaped_def
proof (intro allI impI)
  fix key v e assume h: "cache st' key = Some (v, e)"
  show "(\<exists>i b. key = bookingKey i \<and> v = CachedBooking b)
        \<or> (\<exists>k i. key = idempotencyCacheKey k \<and> v = CachedId i)"
  proof (cases "key = bookingKey i")
    case True
    with h c have "v = CachedBooking b" by (simp add: cache_set_def)
    with True show ?thesis by blast
  next
    case False
    with h c have "cache st key = Some (v, e)" by (simp add: cache_set_def)
    with assms(1) show ?thesis unfolding cacheShaped_def by blast
  qed
qed

lemma cacheShaped_token:
  assumes "cacheShaped st"
    and c: "cache st' = cache_set (cache st) now (idempotencyCacheKey k) (CachedId i) t"
  shows "cacheShaped st'"
  unfolding cacheShaped_def
proof (intro allI impI)
  fix key v e assume h: "cache st' key = Some (v, e)"
  show "(\<exists>i b. key = bookingKey i \<and> v = CachedBooking b)
        \<or> (\<exists>k i. key = idempotencyCacheKey k \<and> v = CachedId i)"
  proof (cases "key = idempotencyCacheKey k")
    case True
    with h c have "v = CachedId i" by (simp add: cache_set_def)
    with True show ?thesis by blast
  next
    case False
    with h c have "cache st key = Some (v, e)" by (simp add: cache_set_def)
    with assms(1) show ?thesis unfolding cacheShaped_def by blast
  qed
qed

lemma cacheShaped_admit:
  assumes "cacheShaped st"
  shows "cacheShaped (snd (admit st d now nid))"
proof -
  obtain r st' where a: "admit st d now nid = (r, st')" by (cases "admit st d now nid")
  from admit_bookings[OF a] show ?thesis
  proof
    assume "bookings st' = bookings st \<and> isl r \<and> cache st' = cache st"
    with a assms show ?thesis by (simp add: cacheShaped_same)
  next
    assume "\<exists>row. r = Inr row \<and> create (bookings st) nid now d = Inr (row, bookings st')
            \<and> (\<forall>x \<in> set (bookings st). \<not> collides d x)
            \<and> cache st' = cache_set (if truthy (idempotencyKey d)
                                then cache_set (cache st) now (idempotencyCacheKey (the (idempotencyKey d)))
                                       (CachedId (id_b row)) (idempotencyTtl (config st))
                                else cache st) now (bookingKey (id_b row)) (CachedBooking row) (ttl (config st))"
    then obtain row where
      ca: "cache st' = cache_set (if truthy (idempotencyKey d)
                                then cache_set (cache st) now (idempotencyCacheKey (the (idempotencyKey d)))
                                       (CachedId (id_b row)) (idempotencyTtl (config st))
                                else cache st) now (bookingKey (id_b row)) (CachedBooking row) (ttl (config st))"
      by blast
    let ?mid = "st\<lparr> cache := (if truthy (idempotencyKey d)
                                then cache_set (cache st) now (idempotencyCacheKey (the (idempotencyKey d)))
                                       (CachedId (id_b row)) (idempotencyTtl (config st))
                                else cache st) \<rparr>"
    have "cacheShaped ?mid"
    proof (cases "truthy (idempotencyKey d)")
      case True
      then show ?thesis by (intro cacheShaped_token[OF assms]) simp
    next
      case False
      then show ?thesis by (intro cacheShaped_same[OF assms]) simp
    qed
    then have "cacheShaped st'" by (rule cacheShaped_booking) (simp add: ca)
    with a show ?thesis by simp
  qed
qed

section \<open>The calls, one await at a time\<close>

lemma run_createBooking:
  "run 7 st (entry (Create d)) now nid
     = Some (Answered (fst (createBooking st d now nid)), snd (createBooking st d now nid))"
  by (simp add: eval_nat_numeral entry_def createBooking_def checkIdempotency_def admit_def
      Let_def split: option.splits sum.splits list.splits prod.splits)

lemma run_getBooking:
  "run 3 st (entry (Get i)) now nid
     = Some (Answered (fst (getBooking st i now)), snd (getBooking st i now))"
  by (simp add: eval_nat_numeral entry_def getBooking_def Let_def split: option.splits)

lemma run_getBookings:
  "run 1 st (entry (List f)) now nid
     = Some (Listed (fst (getBookings st f)), snd (getBookings st f))"
  by (simp add: entry_def getBookings_def)

lemma run_cancelBooking:
  "run 3 st (entry (Cancel i reason)) now nid
     = Some (Answered (fst (cancelBooking st i reason now)), snd (cancelBooking st i reason now))"
  by (simp add: eval_nat_numeral entry_def cancelBooking_def Let_def
      split: option.splits prod.splits)

lemma inflight_run:
  "inflight st (xs @ p # ys) \<Longrightarrow> run n st p now nid = Some (out, st') \<Longrightarrow> inflight st' (xs @ ys)"
proof (induction n arbitrary: st p)
  case 0
  then show ?case by simp
next
  case (Suc n)
  obtain st1 pr where s: "step st p now nid = (st1, pr)" by (cases "step st p now nid")
  show ?case
  proof (cases pr)
    case (Next p')
    with Suc.prems(2) s have r: "run n st1 p' now nid = Some (out, st')" by simp
    from inflight.advance[OF Suc.prems(1) s[unfolded Next]] have "inflight st1 (xs @ p' # ys)" .
    from Suc.IH[OF this r] show ?thesis .
  next
    case (Done o1)
    with Suc.prems(2) s have "st' = st1" by simp
    with inflight.finish[OF Suc.prems(1) s[unfolded Done]] show ?thesis by simp
  qed
qed

lemma inflight_call:
  assumes "inflight st calls" and "run n st (entry r) now nid = Some (out, st')"
  shows "inflight st' calls"
  using inflight_run[of st "[]" "entry r" calls n now nid out st'] inflight.arrive[OF assms(1), of r]
    assms(2) by simp


lemma consistent_append:
  assumes "consistent st" and bs: "bookings st' = bookings st @ [row]"
    and fresh: "id_b row \<notin> id_b ` set (bookings st)"
    and key: "idempotencyKey row = orNull K"
    and uniq: "idempotencyKey row \<noteq> None \<longrightarrow> idempotencyKey row \<notin> idempotencyKey ` set (bookings st)"
    and c: "cache st' = cache st"
  shows "consistent st'"
proof -
  note d = consistentD(1)[OF assms(1)] and u = consistentD(2)[OF assms(1)]
    and ne = consistentD(3)[OF assms(1)] and ch = consistentD(4)[OF assms(1)]
  have 1: "distinct (map id_b (bookings st'))" using d fresh bs by simp
  have 2: "\<forall>a \<in> set (bookings st'). \<forall>b \<in> set (bookings st').
          idempotencyKey a = idempotencyKey b \<and> idempotencyKey a \<noteq> None \<longrightarrow> a = b"
  proof (intro ballI impI)
    fix a b assume a: "a \<in> set (bookings st')" and b: "b \<in> set (bookings st')"
      and e: "idempotencyKey a = idempotencyKey b \<and> idempotencyKey a \<noteq> None"
    from a b bs have "a = row \<or> a \<in> set (bookings st)" "b = row \<or> b \<in> set (bookings st)"
      by auto
    then show "a = b"
    proof (elim disjE)
      assume "a = row" "b = row" then show ?thesis by simp
    next
      assume "a = row" "b \<in> set (bookings st)"
      with e uniq show ?thesis by (metis imageI)
    next
      assume "a \<in> set (bookings st)" "b = row"
      with e uniq show ?thesis by (metis imageI)
    next
      assume "a \<in> set (bookings st)" "b \<in> set (bookings st)"
      with e u show ?thesis by blast
    qed
  qed
  have 3: "\<forall>b \<in> set (bookings st'). idempotencyKey b \<noteq> Some []"
    using ne key bs by (auto simp: orNull_def truthy_def split: if_splits option.splits)
  have 4: "\<forall>k i e. cache st' (idempotencyCacheKey k) = Some (CachedId i, e) \<longrightarrow>
          (\<exists>b \<in> set (bookings st'). id_b b = i \<and> idempotencyKey b = Some k)"
  proof (intro allI impI)
    fix k i e assume "cache st' (idempotencyCacheKey k) = Some (CachedId i, e)"
    with c ch obtain b where "b \<in> set (bookings st)" "id_b b = i" "idempotencyKey b = Some k"
      by auto
    with bs show "\<exists>b \<in> set (bookings st'). id_b b = i \<and> idempotencyKey b = Some k" by auto
  qed
  from 1 2 3 4 show ?thesis by (rule consistentI)
qed

lemma consistent_token:
  assumes "consistent st" and bs: "bookings st' = bookings st"
    and x: "x \<in> set (bookings st)" "id_b x = i" "idempotencyKey x = Some k"
    and c: "cache st' = cache_set (cache st) now (idempotencyCacheKey k) (CachedId i) t"
  shows "consistent st'"
proof -
  note D = consistentD[OF assms(1)]
  have 4: "\<forall>k' i' e. cache st' (idempotencyCacheKey k') = Some (CachedId i', e) \<longrightarrow>
          (\<exists>b \<in> set (bookings st). id_b b = i' \<and> idempotencyKey b = Some k')"
  proof (intro allI impI)
    fix k' i' e assume h: "cache st' (idempotencyCacheKey k') = Some (CachedId i', e)"
    show "\<exists>b \<in> set (bookings st). id_b b = i' \<and> idempotencyKey b = Some k'"
    proof (cases "k' = k")
      case True
      with h c have "i' = i" by (simp add: cache_set_def)
      with True x show ?thesis by blast
    next
      case False
      with h c have "cache st (idempotencyCacheKey k') = Some (CachedId i', e)"
        by (simp add: cache_set_def)
      with D(4) show ?thesis by blast
    qed
  qed
  with D(1-3) show ?thesis unfolding bs[symmetric] by (intro consistentI)
qed

lemma step_consistent:
  assumes "consistent st" and "pendingOk st p"
  shows "consistent (fst (step st p now nid))"
proof (cases p)
  case (CreateCacheGet d k)
  with assms(1) show ?thesis by simp
next
  case (CreateFindById d cid)
  show ?thesis unfolding CreateFindById by (rule consistent_weaken[OF assms(1)]) simp_all
next
  case (CreateFindByKey d k)
  show ?thesis unfolding CreateFindByKey by (rule consistent_weaken[OF assms(1)]) simp_all
next
  case (CreateFindRoom d)
  show ?thesis unfolding CreateFindRoom by (rule consistent_weaken[OF assms(1)]) simp_all
next
  case (CreateFindConflicts d)
  show ?thesis unfolding CreateFindConflicts
    by (rule consistent_weaken[OF assms(1)]) (simp_all add: Let_def split: list.splits)
next
  case (CreateInsert d)
  show ?thesis
  proof (cases "create (bookings st) nid now d")
    case (Inl e)
    show ?thesis unfolding CreateInsert
      by (rule consistent_weaken[OF assms(1)]) (simp_all add: Let_def Inl)
  next
    case (Inr pr)
    obtain row bs' where pr: "pr = (row, bs')" by (cases pr)
    note c = Inr[unfolded pr]
    have f1: "bs' = bookings st @ [row]" using create_Inr[OF c] by simp
    have f2: "id_b row \<notin> id_b ` set (bookings st)" using create_Inr[OF c] by simp
    have f3: "idempotencyKey row = orNull (idempotencyKey d)" using create_Inr[OF c] by simp
    have f4: "idempotencyKey row \<noteq> None \<longrightarrow> idempotencyKey row \<notin> idempotencyKey ` set (bookings st)"
      using create_Inr[OF c] by (elim conjE) assumption
    show ?thesis unfolding CreateInsert
      by (rule consistent_append[OF assms(1) _ f2 f3 f4]) (simp_all add: Let_def c f1)
  qed
next
  case (CreateCacheToken d k b)
  with assms(2) obtain x where x: "x \<in> set (bookings st)" "id_b x = id_b b" "idempotencyKey x = Some k"
    by (auto simp: pendingOk_def)
  show ?thesis unfolding CreateCacheToken
    by (rule consistent_token[OF assms(1) _ x, where now = now and t = "idempotencyTtl (config st)"])
       simp_all
next
  case (CreateCacheBooking d b)
  show ?thesis unfolding CreateCacheBooking
    by (rule consistent_weaken[OF assms(1)]) (simp_all add: cache_set_def split: if_splits)
next
  case (GetCacheGet i)
  with assms(1) show ?thesis by simp
next
  case (GetFindById i)
  show ?thesis unfolding GetFindById by (rule consistent_weaken[OF assms(1)]) simp_all
next
  case (GetCacheSet i b)
  show ?thesis unfolding GetCacheSet
    by (rule consistent_weaken[OF assms(1)]) (simp_all add: cache_set_def split: if_splits)
next
  case (ListFindAll f)
  show ?thesis unfolding ListFindAll by (rule consistent_weaken[OF assms(1)]) simp_all
next
  case (CancelFindById i reason)
  show ?thesis unfolding CancelFindById by (rule consistent_weaken[OF assms(1)]) simp_all
next
  case (CancelUpdate i reason t)
  show ?thesis unfolding CancelUpdate
    by (rule consistent_cancel[OF assms(1), where i = i and now = t]) (simp_all add: update_cancel)
next
  case (CancelCacheDelete i reason u)
  show ?thesis unfolding CancelCacheDelete
    by (rule consistent_weaken[OF assms(1)]) (simp_all add: cache_delete_def split: if_splits)
qed

lemma step_keeps_rows:
  assumes "x \<in> set (bookings st)"
  shows "\<exists>y \<in> set (bookings (fst (step st p now nid))).
           id_b y = id_b x \<and> idempotencyKey y = idempotencyKey x"
proof (cases p)
  case (CreateInsert d)
  show ?thesis
  proof (cases "create (bookings st) nid now d")
    case (Inl e)
    with assms show ?thesis unfolding CreateInsert by (auto simp: Let_def)
  next
    case (Inr pr)
    obtain row bs' where pr: "pr = (row, bs')" by (cases pr)
    from create_Inr[OF Inr[unfolded pr]] have "bs' = bookings st @ [row]" by simp
    with assms Inr pr show ?thesis unfolding CreateInsert by (auto simp: Let_def)
  qed
next
  case (CancelUpdate i reason t)
  have "cancelRow i t x \<in> set (bookings (fst (step st p now nid)))"
    unfolding CancelUpdate using assms by (simp add: update_cancel)
  moreover have "id_b (cancelRow i t x) = id_b x \<and>
                 idempotencyKey (cancelRow i t x) = idempotencyKey x" by simp
  ultimately show ?thesis by (rule bexI[rotated])
next
  case (CreateFindConflicts d)
  with assms show ?thesis by (auto simp: Let_def split: list.splits)
qed (use assms in auto)

lemma step_pendingOk_other:
  assumes "pendingOk st q"
  shows "pendingOk (fst (step st p now nid)) q"
proof (cases q)
  case (CreateCacheToken d k b)
  with assms obtain x where x: "x \<in> set (bookings st)" "id_b x = id_b b" "idempotencyKey x = Some k"
    by (auto simp: pendingOk_def)
  from step_keeps_rows[OF x(1), of p now nid] x(2,3) show ?thesis
    unfolding CreateCacheToken pendingOk_def by auto
qed (simp_all add: pendingOk_def)

lemma step_pendingOk_next:
  assumes "step st p now nid = (st', Next p')"
  shows "pendingOk st' p'"
proof (cases p')
  case (CreateCacheToken d k b)
  with assms obtain d0 where p: "p = CreateInsert d0"
    by (cases p) (auto simp: Let_def split: option.splits sum.splits list.splits if_splits prod.splits)
  from assms[unfolded p] CreateCacheToken obtain bs' where
    c: "create (bookings st) nid now d0 = Inr (b, bs')" and st': "bookings st' = bs'"
    and k: "idempotencyKey d0 = Some k" "k \<noteq> []"
    by (auto simp: Let_def split: option.splits sum.splits if_splits prod.splits)
  from create_Inr[OF c] k have "b \<in> set bs'" "idempotencyKey b = Some k"
    by (auto simp: orNull_def truthy_def)
  with st' show ?thesis unfolding CreateCacheToken pendingOk_def by auto
qed (simp_all add: pendingOk_def)

lemma pendingOk_same:
  "bookings st' = bookings st \<Longrightarrow> pendingOk st' p = pendingOk st p"
  by (simp add: pendingOk_def split: pc.splits)

lemma entry_pendingOk: "pendingOk st (entry r)"
  by (cases r) (auto simp: entry_def pendingOk_def split: option.splits)

lemma inflight_invariants:
  "inflight st calls \<Longrightarrow> consistent st \<and> (\<forall>p \<in> set calls. pendingOk st p)"
proof (induction rule: inflight.induct)
  case (init st)
  then show ?case by (simp add: consistent_def)
next
  case (arrive st calls r)
  then show ?case by (simp add: entry_pendingOk)
next
  case (advance st xs p ys now newId st' p')
  then have c: "consistent st" and ok: "\<forall>q \<in> set (xs @ p # ys). pendingOk st q" by simp_all
  from ok have okp: "pendingOk st p" by simp
  have st': "st' = fst (step st p now newId)" using advance.hyps(2) by simp
  have "consistent st'" unfolding st' by (rule step_consistent[OF c okp])
  moreover have "pendingOk st' p'" by (rule step_pendingOk_next[OF advance.hyps(2)])
  moreover have "\<forall>q \<in> set xs \<union> set ys. pendingOk st' q"
    unfolding st' using ok by (auto intro: step_pendingOk_other)
  ultimately show ?case by auto
next
  case (finish st xs p ys now newId st' out)
  then have c: "consistent st" and ok: "\<forall>q \<in> set (xs @ p # ys). pendingOk st q" by simp_all
  from ok have okp: "pendingOk st p" by simp
  have st': "st' = fst (step st p now newId)" using finish.hyps(2) by simp
  have "consistent st'" unfolding st' by (rule step_consistent[OF c okp])
  moreover have "\<forall>q \<in> set xs \<union> set ys. pendingOk st' q"
    unfolding st' using ok by (auto intro: step_pendingOk_other)
  ultimately show ?case by auto
next
  case (directory st calls rs)
  then have "consistent st" by simp
  then have "consistent (st\<lparr>rooms := rs\<rparr>)" by (rule consistent_weaken) simp_all
  moreover have "\<And>p. pendingOk (st\<lparr>rooms := rs\<rparr>) p = pendingOk st p"
    by (rule pendingOk_same) simp
  ultimately show ?case using directory by simp
next
  case (evict st calls key)
  then have "consistent st" by simp
  then have "consistent (st\<lparr>cache := cache_delete (cache st) key\<rparr>)"
    by (rule consistent_weaken) (simp_all add: cache_delete_def split: if_splits)
  moreover have "\<And>p. pendingOk (st\<lparr>cache := cache_delete (cache st) key\<rparr>) p = pendingOk st p"
    by (rule pendingOk_same) simp
  ultimately show ?case using evict by simp
qed

lemma step_cacheShaped:
  assumes "cacheShaped st"
  shows "cacheShaped (fst (step st p now nid))"
proof (cases p)
  case (CreateCacheToken d k b)
  show ?thesis unfolding CreateCacheToken
    by (rule cacheShaped_token[OF assms, where now = now and t = "idempotencyTtl (config st)"]) simp
next
  case (CreateCacheBooking d b)
  show ?thesis unfolding CreateCacheBooking
    by (rule cacheShaped_booking[OF assms, where now = now and t = "ttl (config st)"]) simp
next
  case (GetCacheSet i b)
  show ?thesis unfolding GetCacheSet
    by (rule cacheShaped_booking[OF assms, where now = now and t = "ttl (config st)"]) simp
next
  case (CancelCacheDelete i reason u)
  show ?thesis unfolding CancelCacheDelete
    by (rule cacheShaped_delete[OF assms, where key = "bookingKey i"]) simp
next
  case (CreateFindConflicts d)
  show ?thesis unfolding CreateFindConflicts
    by (rule cacheShaped_same[OF assms]) (simp add: Let_def split: list.splits)
next
  case (CreateInsert d)
  show ?thesis unfolding CreateInsert
    by (rule cacheShaped_same[OF assms]) (simp add: Let_def split: sum.splits prod.splits)
next
  case (CancelUpdate i reason t)
  show ?thesis unfolding CancelUpdate
    by (rule cacheShaped_same[OF assms]) (simp add: update_cancel)
qed (use assms in \<open>auto intro: cacheShaped_same\<close>)

lemma inflight_cacheShaped: "inflight st calls \<Longrightarrow> cacheShaped st"
proof (induction rule: inflight.induct)
  case (init st)
  then show ?case by (simp add: cacheShaped_def)
next
  case (arrive st calls r)
  then show ?case by simp
next
  case (advance st xs p ys now newId st' p')
  from step_cacheShaped[OF advance.IH, of p now newId] advance.hyps(2) show ?case by simp
next
  case (finish st xs p ys now newId st' out)
  from step_cacheShaped[OF finish.IH, of p now newId] finish.hyps(2) show ?case by simp
next
  case (directory st calls rs)
  then show ?case by (simp add: cacheShaped_def)
next
  case (evict st calls key)
  then show ?case by (simp add: cacheShaped_def cache_delete_def)
qed

lemma reachable_consistent: "reachable st \<Longrightarrow> consistent st"
  unfolding reachable_def using inflight_invariants by blast

lemma reachable_cacheShaped: "reachable st \<Longrightarrow> cacheShaped st"
  unfolding reachable_def using inflight_cacheShaped by blast

lemma serial_reachable: "serial st \<Longrightarrow> reachable st"
proof (induction rule: serial.induct)
  case (start st)
  then show ?case unfolding reachable_def by (blast intro: inflight.init)
next
  case (create st d now newId)
  then obtain calls where "inflight st calls" unfolding reachable_def by blast
  from inflight_call[OF this run_createBooking] show ?case unfolding reachable_def by blast
next
  case (get st i now)
  then obtain calls where "inflight st calls" unfolding reachable_def by blast
  from inflight_call[OF this run_getBooking] show ?case unfolding reachable_def by blast
next
  case (list st f)
  then obtain calls where "inflight st calls" unfolding reachable_def by blast
  from inflight_call[OF this run_getBookings] show ?case unfolding reachable_def by blast
next
  case (cancel st i reason now)
  then obtain calls where "inflight st calls" unfolding reachable_def by blast
  from inflight_call[OF this run_cancelBooking] show ?case unfolding reachable_def by blast
next
  case (directory st rs)
  then show ?case unfolding reachable_def by (blast intro: inflight.directory)
next
  case (evict st key)
  then show ?case unfolding reachable_def by (blast intro: inflight.evict)
qed


section \<open>Lookups in a consistent store\<close>

lemma find_unique:
  "x \<in> set xs \<Longrightarrow> P x \<Longrightarrow> (\<forall>y \<in> set xs. P y \<longrightarrow> y = x) \<Longrightarrow> find P xs = Some x"
proof (induction xs)
  case Nil
  then show ?case by simp
next
  case (Cons a xs)
  show ?case
  proof (cases "P a")
    case True
    with Cons.prems(3) have "a = x" by simp
    with True show ?thesis by simp
  next
    case False
    with Cons.prems have "x \<in> set xs" "\<forall>y \<in> set xs. P y \<longrightarrow> y = x" by auto
    with Cons.IH[OF this(1) Cons.prems(2) this(2)] False show ?thesis by simp
  qed
qed

lemma filter_unique:
  "distinct xs \<Longrightarrow> x \<in> set xs \<Longrightarrow> P x \<Longrightarrow> (\<forall>y \<in> set xs. P y \<longrightarrow> y = x) \<Longrightarrow> filter P xs = [x]"
proof (induction xs)
  case Nil
  then show ?case by simp
next
  case (Cons a xs)
  show ?case
  proof (cases "a = x")
    case True
    from Cons.prems(1) True have nx: "x \<notin> set xs" by simp
    have "\<forall>y \<in> set xs. \<not> P y"
    proof
      fix y assume y: "y \<in> set xs"
      show "\<not> P y"
      proof
        assume "P y"
        with Cons.prems(4) y have "y = x" by simp
        with y nx show False by simp
      qed
    qed
    then have "filter P xs = []" by (simp add: filter_empty_conv)
    with True Cons.prems(3) show ?thesis by simp
  next
    case False
    from Cons.prems(4) False have na: "\<not> P a" by auto
    from Cons.prems(2) False have xin: "x \<in> set xs" by auto
    from Cons.prems(1) have d: "distinct xs" by simp
    from Cons.prems(4) have all: "\<forall>y \<in> set xs. P y \<longrightarrow> y = x" by simp
    from Cons.IH[OF d xin Cons.prems(3) all] na show ?thesis by simp
  qed
qed

lemma id_unique:
  assumes "consistent st" and "a \<in> set (bookings st)" and "b \<in> set (bookings st)"
    and "id_b a = id_b b"
  shows "a = b"
proof -
  from consistentD(1)[OF assms(1)] have inj: "inj_on id_b (set (bookings st))"
    by (simp add: distinct_map)
  show ?thesis by (rule inj_onD[OF inj assms(4,2,3)])
qed

lemma key_unique:
  assumes "consistent st" and "a \<in> set (bookings st)" and "b \<in> set (bookings st)"
    and "idempotencyKey a = Some k" and "idempotencyKey b = Some k"
  shows "a = b"
  using consistentD(2)[OF assms(1)] assms(2-5) by fastforce

lemma cache_get_id_Some:
  "cache_get_id c now key = Some i \<Longrightarrow> \<exists>e. c key = Some (CachedId i, e)"
  by (auto simp: cache_get_id_def cache_get_def split: option.splits if_splits cache_value.splits)

lemma checkIdempotency_finds:
  assumes "consistent st" and "b \<in> set (bookings st)" and "idempotencyKey b = Some k"
  shows "checkIdempotency st now k = (Some b, sent (SelectBookingById (id_b b)) st)
       \<or> checkIdempotency st now k = (Some b, sent (SelectBookingByKey k) st)"
proof -
  have byKey: "findByIdempotencyKey (bookings st) k = Some b"
    unfolding findByIdempotencyKey_def
  proof (rule find_unique[where P = "\<lambda>y. idempotencyKey y = Some k" and x = b])
    show "b \<in> set (bookings st)" by (rule assms(2))
    show "idempotencyKey b = Some k" by (rule assms(3))
    show "\<forall>y \<in> set (bookings st). idempotencyKey y = Some k \<longrightarrow> y = b"
      using key_unique[OF assms(1) _ assms(2) _ assms(3)] by blast
  qed
  show ?thesis
  proof (cases "cache_get_id (cache st) now (idempotencyCacheKey k)")
    case None
    with byKey show ?thesis by (simp add: checkIdempotency_def)
  next
    case (Some cid)
    show ?thesis
    proof (cases "cid = []")
      case True
      with Some byKey show ?thesis by (simp add: checkIdempotency_def)
    next
      case False
      from cache_get_id_Some[OF Some] obtain e where
        "cache st (idempotencyCacheKey k) = Some (CachedId cid, e)" by blast
      with consistentD(4)[OF assms(1)] obtain b' where
        b': "b' \<in> set (bookings st)" "id_b b' = cid" "idempotencyKey b' = Some k" by blast
      from key_unique[OF assms(1) b'(1) assms(2) b'(3) assms(3)] have "b' = b" .
      with b' have cid: "cid = id_b b" by simp
      have "findById (bookings st) cid = Some b"
        unfolding findById_def cid
      proof (rule find_unique[where P = "\<lambda>y. id_b y = id_b b" and x = b])
        show "b \<in> set (bookings st)" by (rule assms(2))
        show "id_b b = id_b b" by simp
        show "\<forall>y \<in> set (bookings st). id_b y = id_b b \<longrightarrow> y = b"
          using id_unique[OF assms(1) _ assms(2)] by blast
      qed
      with Some False cid show ?thesis by (simp add: checkIdempotency_def)
    qed
  qed
qed

lemma checkIdempotency_found:
  assumes "consistent st" and "fst (checkIdempotency st now k) = Some b"
  shows "b \<in> set (bookings st) \<and> idempotencyKey b = Some k"
proof -
  have byKey: "findByIdempotencyKey (bookings st) k = Some b \<Longrightarrow> ?thesis"
    by (auto simp: findByIdempotencyKey_def find_Some_iff)
  show ?thesis
  proof (cases "cache_get_id (cache st) now (idempotencyCacheKey k)")
    case None
    with assms(2) byKey show ?thesis by (simp add: checkIdempotency_def)
  next
    case (Some cid)
    show ?thesis
    proof (cases "cid = []")
      case True
      with Some assms(2) byKey show ?thesis by (simp add: checkIdempotency_def)
    next
      case False
      with Some assms(2) have f: "findById (bookings st) cid = Some b"
        by (simp add: checkIdempotency_def)
      then have b: "b \<in> set (bookings st)" "id_b b = cid"
        by (auto simp: findById_def find_Some_iff)
      from cache_get_id_Some[OF Some] obtain e where
        "cache st (idempotencyCacheKey k) = Some (CachedId cid, e)" by blast
      with consistentD(4)[OF assms(1)] obtain b' where
        b': "b' \<in> set (bookings st)" "id_b b' = cid" "idempotencyKey b' = Some k" by blast
      from id_unique[OF assms(1) b'(1) b(1)] b'(2) b(2) have "b' = b" by simp
      with b' b show ?thesis by simp
    qed
  qed
qed

lemma replay_stored:
  assumes "consistent st" and "idempotencyKey d = Some k" and "k \<noteq> []"
    and "b \<in> set (bookings st)" and "idempotencyKey b = Some k"
  shows "\<exists>st'. createBooking st d now nid = (Inr b, st')
           \<and> bookings st' = bookings st \<and> rooms st' = rooms st \<and> cache st' = cache st
           \<and> emitted st' = emitted st \<and> config st' = config st
           \<and> (queries st' = queries st @ [SelectBookingById (id_b b)]
              \<or> queries st' = queries st @ [SelectBookingByKey k])"
  using checkIdempotency_finds[OF assms(1,4,5), of now] assms(2,3)
  by (auto simp: createBooking_def)

lemma created_or_replayed:
  assumes "consistent st" and "idempotencyKey d = Some k" and "k \<noteq> []"
    and "createBooking st d now nid = (Inr b1, st1)"
  shows "b1 \<in> set (bookings st1) \<and> idempotencyKey b1 = Some k
       \<and> (bookings st = [] \<longrightarrow> bookings st1 = [b1])"
proof (cases "resolveToken st d now")
  case (Some b)
  with assms(4) have e: "b1 = b" "bookings st1 = bookings st"
    by (auto simp: createBooking_replay)
  from Some assms(2,3) have "fst (checkIdempotency st now k) = Some b"
    by (simp add: resolveToken_def)
  from checkIdempotency_found[OF assms(1) this] e show ?thesis by auto
next
  case None
  with assms(4) have a: "admit (afterTokenStep st d now) d now nid = (Inr b1, st1)"
    by (simp add: createBooking_admit)
  from admit_bookings[OF a] have "create (bookings st) nid now d = Inr (b1, bookings st1)"
    by auto
  from create_Inr[OF this] assms(2,3) show ?thesis
    by (auto simp: orNull_def truthy_def)
qed

section \<open>The free-slot walk\<close>

lemma loop_walk:
  "(case calculateAvailableSlots_loop booked (acc, c) of
      (slots, currentStart) \<Rightarrow>
        if currentStart < dayEnd
        then slots @ [\<lparr> slotStart = currentStart, slotEnd = dayEnd \<rparr>]
        else slots)
   = acc @ freeSlotsWalk c dayEnd booked"
  by (induction booked arbitrary: acc c) simp_all

lemma calculateAvailableSlots_walk:
  "calculateAvailableSlots dayStart dayEnd booked =
     (if booked = [] then [\<lparr> slotStart = dayStart, slotEnd = dayEnd \<rparr>]
      else freeSlotsWalk dayStart dayEnd booked)"
  using loop_walk[where booked = booked and acc = "[]" and c = dayStart and dayEnd = dayEnd]
  by (simp add: calculateAvailableSlots_def)

lemma business_window: "setHours tz date 8 0 0 0 < setHours tz date 18 0 0 0"
  by (simp add: setHours_def)

lemma getAvailability_Some:
  assumes "getAvailability rs bs tz rid date = Some a"
  shows "availableSlots a =
           calculateAvailableSlots (setHours tz date 8 0 0 0) (setHours tz date 18 0 0 0) (bookedSlots a)"
    and "sorted (map slotStart (bookedSlots a))"
  using assms
  by (auto simp: getAvailability_def Let_def comp_def split: option.splits)

lemma instants_clip: "instants (clip ws we s) = instants s \<inter> {ws ..< we}"
  by (auto simp: instants_def clip_def)

lemma walk_covers:
  "c \<le> t \<Longrightarrow> t < we \<Longrightarrow>
   t \<in> (\<Union>s \<in> set (freeSlotsWalk c we booked). instants s) \<union> (\<Union>s \<in> set booked. instants s)"
proof (induction booked arbitrary: c)
  case Nil
  then show ?case by (simp add: instants_def)
next
  case (Cons b booked)
  show ?case
  proof (cases "t < max c (slotEnd b)")
    case True
    with Cons.prems have "t \<in> instants b \<or> (c < slotStart b \<and> c \<le> t \<and> t < slotStart b)"
      by (auto simp: instants_def)
    then show ?thesis by (auto simp: instants_def)
  next
    case False
    then have "max c (slotEnd b) \<le> t" by linarith
    from Cons.IH[OF this Cons.prems(2)] show ?thesis by auto
  qed
qed

lemma walk_starts:
  "a \<in> set (freeSlotsWalk c we booked) \<Longrightarrow> c \<le> slotStart a"
proof (induction booked arbitrary: c)
  case Nil
  then show ?case by (simp split: if_splits)
next
  case (Cons b booked)
  from Cons.prems consider "a = \<lparr> slotStart = c, slotEnd = slotStart b \<rparr>"
    | "a \<in> set (freeSlotsWalk (max c (slotEnd b)) we booked)"
    by (auto split: if_splits)
  then show ?case
  proof cases
    case 1
    then show ?thesis by simp
  next
    case 2
    from Cons.IH[OF 2] show ?thesis by simp
  qed
qed

lemma walk_disjoint:
  "sorted (map slotStart booked) \<Longrightarrow> a \<in> set (freeSlotsWalk c we booked) \<Longrightarrow>
   b \<in> set booked \<Longrightarrow> instants a \<inter> instants b = {}"
proof (induction booked arbitrary: c)
  case Nil
  then show ?case by simp
next
  case (Cons x booked)
  from Cons.prems(1) have srt: "sorted (map slotStart booked)"
    and le: "\<forall>y \<in> set booked. slotStart x \<le> slotStart y" by simp_all
  from Cons.prems(2) consider (gap) "a = \<lparr> slotStart = c, slotEnd = slotStart x \<rparr>"
    | (later) "a \<in> set (freeSlotsWalk (max c (slotEnd x)) we booked)"
    by (auto split: if_splits)
  then show ?case
  proof cases
    case gap
    from Cons.prems(3) le have "slotStart x \<le> slotStart b" by auto
    with gap show ?thesis by (auto simp: instants_def)
  next
    case later
    from Cons.prems(3) have "b = x \<or> b \<in> set booked" by simp
    then show ?thesis
    proof
      assume "b = x"
      with walk_starts[OF later] show ?thesis by (auto simp: instants_def)
    next
      assume "b \<in> set booked"
      from Cons.IH[OF srt later this] show ?thesis .
    qed
  qed
qed

section \<open>The example states\<close>

lemma world0_room: "findById_room (rooms world0) ''R1'' = Some room1"
  by (simp add: world0_def findById_room_def room1_def)

lemma world0_reachable: "reachable world0"
  unfolding reachable_def by (rule exI[of _ "[]"], rule inflight.init) (simp_all add: world0_def)

lemma world0_serial: "serial world0"
  by (rule serial.start) (simp_all add: world0_def)

lemma worldBooked_serial: "serial worldBooked"
  unfolding worldBooked_def by (rule serial.create[OF world0_serial])

lemma worldBooked_reachable: "reachable worldBooked"
  by (rule serial_reachable[OF worldBooked_serial])

lemma world0_create:
  "createBooking world0 requestA 0 ''B1'' = (Inr bookingA, worldBooked)"
  "bookings worldBooked = [bookingA]"
  "rooms worldBooked = [room1]"
proof -
  have h1: "resolveToken world0 requestA 0 = None"
    by (simp add: resolveToken_def requestA_def checkIdempotency_def cache_get_id_def
        cache_get_def world0_def findByIdempotencyKey_def)
  have a: "afterTokenStep world0 requestA 0 = sent (SelectBookingByKey ''k1'') world0"
    by (simp add: afterTokenStep_def requestA_def checkIdempotency_def cache_get_id_def
        cache_get_def world0_def)
  have h2: "findById_room (rooms (afterTokenStep world0 requestA 0)) (roomId requestA) = Some room1"
    by (simp add: requestA_def world0_room)
  have h3: "validateBookingTimes 0 (startTime requestA) (endTime requestA) = Inr ()"
    by (simp add: validateBookingTimes_order requestA_def)
  have h4: "findConflictingBookings (bookings (afterTokenStep world0 requestA 0)) (roomId requestA)
              (startTime requestA) (endTime requestA) None = []"
    by (simp add: findConflictingBookings_def world0_def)
  have h5: "create (bookings (afterTokenStep world0 requestA 0)) ''B1'' 0 requestA
              = Inr (bookingA, [bookingA])"
    by (simp add: create_def world0_def requestA_def bookingA_def orNull_def truthy_def Let_def)
  from admit_success[OF h2 h3 h4 h5] createBooking_admit[OF h1, of "''B1''"]
  show "createBooking world0 requestA 0 ''B1'' = (Inr bookingA, worldBooked)"
    "bookings worldBooked = [bookingA]"
    "rooms worldBooked = [room1]"
    by (auto simp: worldBooked_def world0_def)
qed







lemma worldA_find: "findById (bookings worldA) ''B1'' = Some bookingA"
  by (simp add: worldA_def world0_def findById_def bookingA_def)

lemma bookingA_status: "status bookingA \<noteq> CANCELLED"
  by (simp add: bookingA_def)

lemma worldStale_resolve: "resolveToken worldStale requestC 0 = None"
  by (simp add: resolveToken_def requestC_def checkIdempotency_def cache_get_id_def
        cache_get_def worldStale_def world0_def findById_def bookingA_def)

lemma worldStale_create:
  "create (bookings worldStale) ''B2'' 0 requestC = Inl (UniqueViolation ''bookings_idempotency_key_key'')"
  by (simp add: create_def worldStale_def world0_def bookingA_def requestC_def orNull_def truthy_def)

section \<open>Admission: invariant, replay, validation, conflicts, store errors\<close>




text \<open>
  Claim C2. In a reachable state, for a request that carries a token (a non-empty string,
  the test of the source): when a booking with that token is stored, \<open>createBooking\<close>
  returns that booking as stored, whatever the payload, the instant and the resource
  directory are. It sends one statement to the store, the lookup of the booking by the
  cached id or by the token: no room lookup, no conflict query, no insert. Bookings,
  cache and events are unchanged. Hence when a call returns a booking, any later call with
  the same request returns the same booking and leaves the store as it is, exactly one
  stored booking carries the token, and from an empty store the store holds that one
  record.
\<close>

theorem idempotent_replay:
  assumes "reachable st" and "idempotencyKey d = Some k" and "k \<noteq> []"
  shows "(\<forall>b \<in> set (bookings st). idempotencyKey b = Some k \<longrightarrow>
           (\<exists>st'. createBooking st d now nid = (Inr b, st')
              \<and> bookings st' = bookings st \<and> rooms st' = rooms st
              \<and> cache st' = cache st \<and> emitted st' = emitted st
              \<and> (queries st' = queries st @ [SelectBookingById (id_b b)]
                 \<or> queries st' = queries st @ [SelectBookingByKey k])))
       \<and> (\<forall>b1 st1. createBooking st d now nid = (Inr b1, st1) \<longrightarrow>
             idempotencyKey b1 = Some k
           \<and> filter (\<lambda>x. idempotencyKey x = Some k) (bookings st1) = [b1]
           \<and> (\<forall>now2 nid2. \<exists>st2. createBooking st1 d now2 nid2 = (Inr b1, st2)
                  \<and> bookings st2 = bookings st1
                  \<and> (bookings st = [] \<longrightarrow> bookings st2 = [b1])))"
proof (intro conjI ballI allI impI)
  fix b assume "b \<in> set (bookings st)" "idempotencyKey b = Some k"
  with replay_stored[OF _ assms(2,3) this, of now nid] reachable_consistent[OF assms(1)]
  show "\<exists>st'. createBooking st d now nid = (Inr b, st')
              \<and> bookings st' = bookings st \<and> rooms st' = rooms st
              \<and> cache st' = cache st \<and> emitted st' = emitted st
              \<and> (queries st' = queries st @ [SelectBookingById (id_b b)]
                 \<or> queries st' = queries st @ [SelectBookingByKey k])"
    by blast
next
  fix b1 st1 assume c: "createBooking st d now nid = (Inr b1, st1)"
  from reachable_consistent[OF assms(1)] have cs: "consistent st" .
  from created_or_replayed[OF cs assms(2,3) c]
  have b1: "b1 \<in> set (bookings st1)" "idempotencyKey b1 = Some k"
    and emp: "bookings st = [] \<longrightarrow> bookings st1 = [b1]" by simp_all
  from consistent_createBooking[OF cs, of d now nid] c have cs1: "consistent st1" by simp
  show "idempotencyKey b1 = Some k" by (rule b1(2))
  show "filter (\<lambda>x. idempotencyKey x = Some k) (bookings st1) = [b1]"
  proof (rule filter_unique[where P = "\<lambda>x. idempotencyKey x = Some k" and x = b1])
    from consistentD(1)[OF cs1] show "distinct (bookings st1)" by (simp add: distinct_map)
    show "b1 \<in> set (bookings st1)" by (rule b1(1))
    show "idempotencyKey b1 = Some k" by (rule b1(2))
    show "\<forall>y \<in> set (bookings st1). idempotencyKey y = Some k \<longrightarrow> y = b1"
      using key_unique[OF cs1 _ b1(1) _ b1(2)] by blast
  qed
  fix now2 nid2
  from replay_stored[OF cs1 assms(2,3) b1, of now2 nid2] emp
  show "\<exists>st2. createBooking st1 d now2 nid2 = (Inr b1, st2)
                  \<and> bookings st2 = bookings st1
                  \<and> (bookings st = [] \<longrightarrow> bookings st2 = [b1])"
    by auto
qed

theorem idempotent_replay_witness:
  "reachable world0 \<and> idempotencyKey requestA = Some ''k1''
   \<and> createBooking world0 requestA 0 ''B1'' = (Inr bookingA, worldBooked)
   \<and> reachable worldBooked
   \<and> bookingA \<in> set (bookings worldBooked) \<and> idempotencyKey bookingA = Some ''k1''
   \<and> (\<exists>st2. createBooking worldBooked requestA 99 ''B9'' = (Inr bookingA, st2)
          \<and> bookings st2 = [bookingA])
   \<and> (\<exists>st'. createBooking worldBooked (requestA\<lparr> roomId := ''none'', endTime := 0 \<rparr>) 99 ''B9''
                 = (Inr bookingA, st')
          \<and> bookings st' = [bookingA] \<and> emitted st' = emitted worldBooked
          \<and> cache st' = cache worldBooked)"
proof -
  have k: "idempotencyKey requestA = Some ''k1''" by (simp add: requestA_def)
  have k': "idempotencyKey (requestA\<lparr> roomId := ''none'', endTime := 0 \<rparr>) = Some ''k1''"
    by (simp add: requestA_def)
  have kb: "idempotencyKey bookingA = Some ''k1''" by (simp add: bookingA_def)
  have ne: "''k1'' \<noteq> []" by simp
  from idempotent_replay[OF world0_reachable k ne, of 0 "''B1''"] world0_create
  have two: "\<exists>st2. createBooking worldBooked requestA 99 ''B9'' = (Inr bookingA, st2)
          \<and> bookings st2 = [bookingA]"
    by (auto simp: world0_def)
  from idempotent_replay[OF worldBooked_reachable k' ne, of 99 "''B9''"] world0_create(2) kb
  have other: "\<exists>st'. createBooking worldBooked (requestA\<lparr> roomId := ''none'', endTime := 0 \<rparr>) 99 ''B9''
                 = (Inr bookingA, st')
          \<and> bookings st' = [bookingA] \<and> emitted st' = emitted worldBooked
          \<and> cache st' = cache worldBooked"
    by auto
  from world0_reachable worldBooked_reachable k kb world0_create two other
  show ?thesis by simp
qed

text \<open>
  Claim C3. After the idempotency step found nothing and the room was found,
  \<open>createBooking\<close> fails with an \<open>InvalidBookingTimeError\<close> exactly when the start is
  strictly before the current time, or the end is not after the start, or the duration
  exceeds 8 hours, or it is below 15 minutes. The checks run in that order: the message is
  the one of the first check that fails. A request that passes all four goes on to the
  conflict query.
\<close>

theorem interval_validation:
  assumes "resolveToken st d now = None"
    and "findById_room (rooms st) (roomId d) = Some r"
  shows "((\<exists>msg. fst (createBooking st d now nid) = Inl (InvalidBookingTimeError msg)) \<longleftrightarrow>
            startTime d < now \<or> endTime d \<le> startTime d
            \<or> endTime d - startTime d > 8 * 60 * 60 * 1000
            \<or> endTime d - startTime d < 15 * 60 * 1000)
       \<and> (startTime d < now \<longrightarrow>
            fst (createBooking st d now nid) =
              Inl (InvalidBookingTimeError ''Start time cannot be in the past''))
       \<and> (now \<le> startTime d \<and> endTime d \<le> startTime d \<longrightarrow>
            fst (createBooking st d now nid) =
              Inl (InvalidBookingTimeError ''End time must be after start time''))
       \<and> (now \<le> startTime d \<and> startTime d < endTime d
            \<and> endTime d - startTime d > 8 * 60 * 60 * 1000 \<longrightarrow>
            fst (createBooking st d now nid) =
              Inl (InvalidBookingTimeError ''Booking duration cannot exceed 8 hours''))
       \<and> (now \<le> startTime d \<and> startTime d < endTime d
            \<and> endTime d - startTime d < 15 * 60 * 1000 \<longrightarrow>
            fst (createBooking st d now nid) =
              Inl (InvalidBookingTimeError ''Booking duration must be at least 15 minutes''))
       \<and> (now \<le> startTime d \<and> 15 * 60 * 1000 \<le> endTime d - startTime d
            \<and> endTime d - startTime d \<le> 8 * 60 * 60 * 1000 \<longrightarrow>
            (\<exists>qs. queries (snd (createBooking st d now nid)) =
                    queries (afterTokenStep st d now)
                    @ [SelectRoomById (roomId d),
                       SelectConflicts (roomId d) (startTime d) (endTime d)] @ qs))"
proof -
  let ?st = "afterTokenStep st d now"
  have cb: "createBooking st d now nid = admit ?st d now nid"
    using assms(1) by (rule createBooking_admit)
  have room: "findById_room (rooms ?st) (roomId d) = Some r" using assms(2) by simp
  show ?thesis
  proof (cases "validateBookingTimes now (startTime d) (endTime d)")
    case (Inl e)
    from admit_invalid[OF room Inl] have "fst (createBooking st d now nid) = Inl e"
      by (simp add: cb)
    with Inl show ?thesis
      by (auto simp: validateBookingTimes_order split: if_splits)
  next
    case (Inr u)
    from admit_after_validation[OF room Inr, of nid] cb
    obtain qs where q: "queries (snd (createBooking st d now nid)) =
           queries ?st @ [SelectRoomById (roomId d),
                         SelectConflicts (roomId d) (startTime d) (endTime d)] @ qs"
      and ne: "\<forall>msg. fst (createBooking st d now nid) \<noteq> Inl (InvalidBookingTimeError msg)"
      by auto
    from Inr have ok: "\<not> startTime d < now" "\<not> endTime d \<le> startTime d"
      "\<not> endTime d - startTime d > 8 * 60 * 60 * 1000"
      "\<not> endTime d - startTime d < 15 * 60 * 1000"
      by (simp_all add: validateBookingTimes_order split: if_splits)
    with q ne show ?thesis by auto
  qed
qed

theorem interval_validation_witness:
  "resolveToken world0 requestA 0 = None
   \<and> findById_room (rooms world0) (roomId requestA) = Some room1
   \<and> \<not> (\<exists>msg. fst (createBooking world0 requestA 0 ''B1'') = Inl (InvalidBookingTimeError msg))
   \<and> fst (createBooking world0 (requestA\<lparr> endTime := 36000001 \<rparr>) 0 ''B1'')
       = Inl (InvalidBookingTimeError ''Booking duration must be at least 15 minutes'')"
proof -
  have h1: "resolveToken world0 requestA 0 = None"
    by (simp add: resolveToken_def requestA_def checkIdempotency_def cache_get_id_def
        cache_get_def world0_def findByIdempotencyKey_def)
  have h2: "findById_room (rooms world0) (roomId requestA) = Some room1"
    by (simp add: requestA_def world0_room)
  have h1': "resolveToken world0 (requestA\<lparr> endTime := 36000001 \<rparr>) 0 = None"
    by (simp add: resolveToken_def requestA_def checkIdempotency_def cache_get_id_def
        cache_get_def world0_def findByIdempotencyKey_def)
  have h2': "findById_room (rooms world0) (roomId (requestA\<lparr> endTime := 36000001 \<rparr>)) = Some room1"
    by (simp add: requestA_def world0_room)
  from interval_validation[OF h1 h2, of "''B1''"] interval_validation[OF h1' h2', of "''B1''"]
    h1 h2
  show ?thesis by (simp add: requestA_def)
qed

text \<open>
  Claim C4. A request that reaches the conflict check (no replay, room found, interval
  valid) while some booking of the room that is not cancelled satisfies
  \<open>existing.start < end\<close> and \<open>existing.end > start\<close>: the service hands a
  \<open>ROOM_UNAVAILABLE\<close> event to the event bus, carrying the room id, the requested
  interval and the id of the first conflicting booking in the order the store returns
  them, and fails with \<open>RoomUnavailableError\<close>. No booking is created and the cache is
  not written.
\<close>

theorem conflict_rejected:
  assumes "resolveToken st d now = None"
    and "findById_room (rooms st) (roomId d) = Some r"
    and "validateBookingTimes now (startTime d) (endTime d) = Inr ()"
    and "\<exists>x \<in> set (bookings st). roomId x = roomId d \<and> status x \<noteq> CANCELLED
           \<and> startTime x < endTime d \<and> endTime x > startTime d"
  shows "\<exists>c cs st'.
           findConflictingBookings (bookings st) (roomId d) (startTime d) (endTime d) None = c # cs
         \<and> find (\<lambda>x. roomId x = roomId d \<and> status x \<noteq> CANCELLED
                       \<and> startTime x < endTime d \<and> endTime x > startTime d) (bookings st) = Some c
         \<and> createBooking st d now nid =
               (Inl (RoomUnavailableError (roomId d) (startTime d) (endTime d)), st')
         \<and> emitted st' = emitted st
               @ [ROOM_UNAVAILABLE (roomId d) (startTime d) (endTime d) (id_b c) now]
         \<and> bookings st' = bookings st \<and> cache st' = cache st \<and> rooms st' = rooms st"
proof -
  let ?st = "afterTokenStep st d now"
  let ?P = "\<lambda>x. roomId x = roomId d \<and> status x \<noteq> CANCELLED
                       \<and> startTime x < endTime d \<and> endTime x > startTime d"
  have cb: "createBooking st d now nid = admit ?st d now nid"
    using assms(1) by (rule createBooking_admit)
  have room: "findById_room (rooms ?st) (roomId d) = Some r" using assms(2) by simp
  have f: "findConflictingBookings (bookings st) (roomId d) (startTime d) (endTime d) None
             = filter ?P (bookings st)"
    by (simp add: findConflictingBookings_def truthy_def)
  from assms(4) have "filter ?P (bookings st) \<noteq> []" by (auto simp: filter_empty_conv)
  then obtain c cs where cs: "filter ?P (bookings st) = c # cs"
    by (cases "filter ?P (bookings st)") auto
  then have fc: "findConflictingBookings (bookings ?st) (roomId d) (startTime d) (endTime d) None
                   = c # cs"
    by (simp add: f)
  from admit_conflict[OF room assms(3) fc, of nid] cb filter_hd_find[OF cs] fc
  show ?thesis by simp
qed

theorem conflict_rejected_witness:
  "resolveToken worldA requestB 0 = None
   \<and> findById_room (rooms worldA) (roomId requestB) = Some room1
   \<and> validateBookingTimes 0 (startTime requestB) (endTime requestB) = Inr ()
   \<and> fst (createBooking worldA requestB 0 ''B2'') = Inl (RoomUnavailableError ''R1'' 37800000 41400000)
   \<and> emitted (snd (createBooking worldA requestB 0 ''B2''))
       = [ROOM_UNAVAILABLE ''R1'' 37800000 41400000 ''B1'' 0]
   \<and> bookings (snd (createBooking worldA requestB 0 ''B2'')) = [bookingA]"
proof -
  have h1: "resolveToken worldA requestB 0 = None"
    by (simp add: resolveToken_def requestB_def)
  have h2: "findById_room (rooms worldA) (roomId requestB) = Some room1"
    by (simp add: requestB_def worldA_def world0_room)
  have h3: "validateBookingTimes 0 (startTime requestB) (endTime requestB) = Inr ()"
    by (simp add: validateBookingTimes_order requestB_def)
  have h4: "\<exists>x \<in> set (bookings worldA). roomId x = roomId requestB \<and> status x \<noteq> CANCELLED
           \<and> startTime x < endTime requestB \<and> endTime x > startTime requestB"
    by (simp add: worldA_def world0_def bookingA_def requestB_def)
  from conflict_rejected[OF h1 h2 h3 h4, of "''B2''"] h1 h2 h3
  show ?thesis
    by (auto simp: worldA_def world0_def bookingA_def requestB_def)
qed

text \<open>
  Claim C5, as amended. When the insert of \<open>createBooking\<close> fails with a violation of
  the uniqueness constraint on the idempotency token, the service passes the store error
  on to the caller. It does not fetch the booking that holds the token; nothing is
  created, cached or emitted. (\<open>createBooking\<close> calls \<open>create\<close> outside any
  \<open>try\<close>, and no caller up to the error middleware looks for the violation.)
\<close>

theorem store_error_propagates:
  assumes "resolveToken st d now = None"
    and "findById_room (rooms st) (roomId d) = Some r"
    and "validateBookingTimes now (startTime d) (endTime d) = Inr ()"
    and "findConflictingBookings (bookings st) (roomId d) (startTime d) (endTime d) None = []"
    and "create (bookings st) nid now d = Inl (UniqueViolation ''bookings_idempotency_key_key'')"
  shows "\<exists>st'. createBooking st d now nid =
               (Inl (DatabaseError (UniqueViolation ''bookings_idempotency_key_key'')), st')
         \<and> bookings st' = bookings st \<and> cache st' = cache st \<and> emitted st' = emitted st
         \<and> (\<forall>q \<in> set (queries st'). q \<in> set (queries (afterTokenStep st d now))
                \<or> q = SelectRoomById (roomId d)
                \<or> q = SelectConflicts (roomId d) (startTime d) (endTime d)
                \<or> q = InsertBooking nid)"
proof -
  let ?st = "afterTokenStep st d now"
  have cb: "createBooking st d now nid = admit ?st d now nid"
    using assms(1) by (rule createBooking_admit)
  have room: "findById_room (rooms ?st) (roomId d) = Some r" using assms(2) by simp
  have fc: "findConflictingBookings (bookings ?st) (roomId d) (startTime d) (endTime d) None = []"
    using assms(4) by simp
  have cr: "create (bookings ?st) nid now d = Inl (UniqueViolation ''bookings_idempotency_key_key'')"
    using assms(5) by simp
  from admit_insert_fails[OF room assms(3) fc cr] cb show ?thesis by auto
qed

theorem store_error_propagates_witness:
  "resolveToken worldStale requestC 0 = None
   \<and> create (bookings worldStale) ''B2'' 0 requestC
       = Inl (UniqueViolation ''bookings_idempotency_key_key'')
   \<and> fst (createBooking worldStale requestC 0 ''B2'')
       = Inl (DatabaseError (UniqueViolation ''bookings_idempotency_key_key''))
   \<and> bookings (snd (createBooking worldStale requestC 0 ''B2'')) = [bookingA]"
proof -
  have h2: "findById_room (rooms worldStale) (roomId requestC) = Some room1"
    by (simp add: requestC_def worldStale_def world0_room)
  have h3: "validateBookingTimes 0 (startTime requestC) (endTime requestC) = Inr ()"
    by (simp add: validateBookingTimes_order requestC_def)
  have h4: "findConflictingBookings (bookings worldStale) (roomId requestC)
              (startTime requestC) (endTime requestC) None = []"
    by (simp add: findConflictingBookings_def worldStale_def world0_def bookingA_def requestC_def)
  from store_error_propagates[OF worldStale_resolve h2 h3 h4 worldStale_create]
    worldStale_resolve worldStale_create
  show ?thesis by (auto simp: worldStale_def world0_def)
qed

text \<open>
  Claim C5 as stated fails. The insert meets a consumed token when the token step did
  not find the booking: the cache entry of the token names an id that no row has, or
  another call with the same token commits between the token step and the insert.
  In \<open>worldStale\<close> booking A holds the token \<open>k1\<close>, the insert for request C violates
  the uniqueness constraint on the token, and the caller gets that error instead of
  booking A. In \<open>world0\<close> the token step of request C finds nothing; once request A, with
  the same token, has been admitted, the rest of the call for request C fails at the
  insert in the same way.
\<close>

theorem unique_violation_replay_counterexample:
  "findByIdempotencyKey (bookings worldStale) ''k1'' = Some bookingA
   \<and> idempotencyKey requestC = Some ''k1''
   \<and> create (bookings worldStale) ''B2'' 0 requestC
       = Inl (UniqueViolation ''bookings_idempotency_key_key'')
   \<and> fst (createBooking worldStale requestC 0 ''B2'')
       = Inl (DatabaseError (UniqueViolation ''bookings_idempotency_key_key''))
   \<and> fst (createBooking worldStale requestC 0 ''B2'') \<noteq> Inr bookingA
   \<and> resolveToken world0 requestC 0 = None
   \<and> createBooking world0 requestA 0 ''B1'' = (Inr bookingA, worldBooked)
   \<and> fst (admit worldBooked requestC 0 ''B2'')
       = Inl (DatabaseError (UniqueViolation ''bookings_idempotency_key_key''))"
proof -
  have 1: "fst (createBooking worldStale requestC 0 ''B2'')
       = Inl (DatabaseError (UniqueViolation ''bookings_idempotency_key_key''))"
    by (simp add: createBooking_def requestC_def checkIdempotency_def cache_get_id_def
        cache_get_def worldStale_def world0_def findById_def bookingA_def admit_def
        findById_room_def room1_def validateBookingTimes_def findConflictingBookings_def
        sent_def create_def orNull_def truthy_def idempotencyCacheKey_def Let_def)
  have 2: "findByIdempotencyKey (bookings worldStale) ''k1'' = Some bookingA"
    by (simp add: findByIdempotencyKey_def worldStale_def world0_def bookingA_def)
  have 3: "idempotencyKey requestC = Some ''k1''" by (simp add: requestC_def)
  have 4: "resolveToken world0 requestC 0 = None"
    by (simp add: resolveToken_def requestC_def checkIdempotency_def cache_get_id_def
        cache_get_def world0_def findByIdempotencyKey_def)
  have r: "findById_room (rooms worldBooked) (roomId requestC) = Some room1"
    by (simp add: world0_create(3) requestC_def findById_room_def room1_def)
  have v: "validateBookingTimes 0 (startTime requestC) (endTime requestC) = Inr ()"
    by (simp add: validateBookingTimes_order requestC_def)
  have c: "findConflictingBookings (bookings worldBooked) (roomId requestC)
              (startTime requestC) (endTime requestC) None = []"
    by (simp add: world0_create(2) findConflictingBookings_def bookingA_def requestC_def)
  have i: "create (bookings worldBooked) ''B2'' 0 requestC
             = Inl (UniqueViolation ''bookings_idempotency_key_key'')"
    by (simp add: world0_create(2) create_def bookingA_def requestC_def orNull_def truthy_def)
  have 5: "fst (admit worldBooked requestC 0 ''B2'')
       = Inl (DatabaseError (UniqueViolation ''bookings_idempotency_key_key''))"
    by (simp add: admit_insert_fails[OF r v c i])
  from 1 2 3 4 5 worldStale_create world0_create(1) show ?thesis by simp
qed

section \<open>Availability\<close>

text \<open>
  Claim C6. \<open>calculateAvailableSlots\<close> computes what the walk of the specification
  computes on any window with start before end, and \<open>getAvailability\<close> hands it the
  booked intervals sorted by start and the window 08:00 to 18:00 of the day: a cursor
  starts at 08:00, each booked interval yields the gap from the cursor to its start when
  the cursor is before it and moves the cursor to the later of the cursor and its end, and
  what is left before 18:00 is the last slot. With no booked interval the whole window is
  the one free slot. With the single booking 10:00 to 14:00 the result is the free slots
  08:00 to 10:00 and 14:00 to 18:00 and the booked slot 10:00 to 14:00.
\<close>

theorem availability_walk:
  "(dayStart < dayEnd \<longrightarrow>
      calculateAvailableSlots dayStart dayEnd booked = freeSlotsWalk dayStart dayEnd booked)
   \<and> calculateAvailableSlots dayStart dayEnd [] = [\<lparr> slotStart = dayStart, slotEnd = dayEnd \<rparr>]
   \<and> (getAvailability rs bs tz rid date = Some a \<longrightarrow>
        sorted (map slotStart (bookedSlots a))
        \<and> availableSlots a =
            freeSlotsWalk (setHours tz date 8 0 0 0) (setHours tz date 18 0 0 0) (bookedSlots a)
        \<and> (bookedSlots a = [] \<longrightarrow>
             availableSlots a = [\<lparr> slotStart = setHours tz date 8 0 0 0,
                                   slotEnd = setHours tz date 18 0 0 0 \<rparr>]))
   \<and> getAvailability [room1] [bookingA] 0 ''R1'' 0 =
        Some \<lparr> roomId_a = ''R1'', date_a = 0,
               availableSlots = [\<lparr> slotStart = 28800000, slotEnd = 36000000 \<rparr>,
                                 \<lparr> slotStart = 50400000, slotEnd = 64800000 \<rparr>],
               bookedSlots = [\<lparr> slotStart = 36000000, slotEnd = 50400000 \<rparr>] \<rparr>"
proof (intro conjI impI)
  assume "dayStart < dayEnd"
  then show "calculateAvailableSlots dayStart dayEnd booked = freeSlotsWalk dayStart dayEnd booked"
    by (simp add: calculateAvailableSlots_walk)
next
  show "calculateAvailableSlots dayStart dayEnd [] = [\<lparr> slotStart = dayStart, slotEnd = dayEnd \<rparr>]"
    by (simp add: calculateAvailableSlots_def)
next
  assume a: "getAvailability rs bs tz rid date = Some a"
  show "sorted (map slotStart (bookedSlots a))" by (rule getAvailability_Some(2)[OF a])
  show w: "availableSlots a =
            freeSlotsWalk (setHours tz date 8 0 0 0) (setHours tz date 18 0 0 0) (bookedSlots a)"
    using getAvailability_Some(1)[OF a] business_window[of tz date]
    by (simp add: calculateAvailableSlots_walk)
  assume "bookedSlots a = []"
  with w business_window[of tz date]
  show "availableSlots a = [\<lparr> slotStart = setHours tz date 8 0 0 0,
                                   slotEnd = setHours tz date 18 0 0 0 \<rparr>]"
    by simp
next
  show "getAvailability [room1] [bookingA] 0 ''R1'' 0 =
        Some \<lparr> roomId_a = ''R1'', date_a = 0,
               availableSlots = [\<lparr> slotStart = 28800000, slotEnd = 36000000 \<rparr>,
                                 \<lparr> slotStart = 50400000, slotEnd = 64800000 \<rparr>],
               bookedSlots = [\<lparr> slotStart = 36000000, slotEnd = 50400000 \<rparr>] \<rparr>"
    by (simp add: getAvailability_def findById_room_def room1_def bookingA_def Let_def
        setHours_def startOfLocalDay_def calculateAvailableSlots_def)
qed

theorem availability_walk_witness:
  "(28800000::int) < 64800000
   \<and> calculateAvailableSlots 28800000 64800000 [\<lparr> slotStart = 36000000, slotEnd = 50400000 \<rparr>]
       = [\<lparr> slotStart = 28800000, slotEnd = 36000000 \<rparr>, \<lparr> slotStart = 50400000, slotEnd = 64800000 \<rparr>]
   \<and> getAvailability [room1] [] 0 ''R1'' 0 =
        Some \<lparr> roomId_a = ''R1'', date_a = 0,
               availableSlots = [\<lparr> slotStart = 28800000, slotEnd = 64800000 \<rparr>],
               bookedSlots = [] \<rparr>
   \<and> availableSlots \<lparr> roomId_a = ''R1'', date_a = 0,
               availableSlots = [\<lparr> slotStart = 28800000, slotEnd = 64800000 \<rparr>],
               bookedSlots = [] \<rparr>
       = [\<lparr> slotStart = setHours 0 0 8 0 0 0, slotEnd = setHours 0 0 18 0 0 0 \<rparr>]"
proof -
  let ?a = "\<lparr> roomId_a = ''R1'', date_a = 0,
               availableSlots = [\<lparr> slotStart = 28800000, slotEnd = 64800000 \<rparr>],
               bookedSlots = [] \<rparr>"
  have lt: "(28800000::int) < 64800000" by simp
  have g: "getAvailability [room1] [] 0 ''R1'' 0 = Some ?a"
    by (simp add: getAvailability_def findById_room_def room1_def Let_def
        setHours_def startOfLocalDay_def calculateAvailableSlots_def)
  have e: "bookedSlots ?a = []" by simp
  have w: "freeSlotsWalk 28800000 64800000 [\<lparr> slotStart = 36000000, slotEnd = 50400000 \<rparr>]
       = [\<lparr> slotStart = 28800000, slotEnd = 36000000 \<rparr>, \<lparr> slotStart = 50400000, slotEnd = 64800000 \<rparr>]"
    by simp
  note T = availability_walk[of 28800000 64800000 "[\<lparr> slotStart = 36000000, slotEnd = 50400000 \<rparr>]"
         "[room1]" "[]" 0 "''R1''" 0 ?a]
  from T lt have c: "calculateAvailableSlots 28800000 64800000 [\<lparr> slotStart = 36000000, slotEnd = 50400000 \<rparr>]
       = freeSlotsWalk 28800000 64800000 [\<lparr> slotStart = 36000000, slotEnd = 50400000 \<rparr>]"
    by blast
  from T g e have a: "availableSlots ?a
       = [\<lparr> slotStart = setHours 0 0 8 0 0 0, slotEnd = setHours 0 0 18 0 0 0 \<rparr>]"
    by blast
  from lt c[unfolded w] g a show ?thesis by blast
qed

text \<open>
  Claim C7. For booked intervals sorted by start and pairwise non-overlapping, the
  computed free slots and the booked slots, each clipped to the window, cover exactly the
  instants of the window, and no clipped free slot shares an instant with a clipped booked
  slot. (The proof uses the order of the starts only.)
\<close>

theorem availability_round_trip:
  assumes "sorted (map slotStart booked)" and "nonOverlapping booked"
  shows "(\<Union>s \<in> set (calculateAvailableSlots dayStart dayEnd booked). instants (clip dayStart dayEnd s))
           \<union> (\<Union>s \<in> set booked. instants (clip dayStart dayEnd s))
         = {dayStart ..< dayEnd}
       \<and> (\<forall>a \<in> set (calculateAvailableSlots dayStart dayEnd booked). \<forall>b \<in> set booked.
            instants (clip dayStart dayEnd a) \<inter> instants (clip dayStart dayEnd b) = {})"
proof (cases "booked = []")
  case True
  then show ?thesis
    by (auto simp: calculateAvailableSlots_def instants_def clip_def)
next
  case False
  then have w: "calculateAvailableSlots dayStart dayEnd booked = freeSlotsWalk dayStart dayEnd booked"
    by (simp add: calculateAvailableSlots_walk)
  have cover: "{dayStart ..< dayEnd} \<subseteq>
      (\<Union>s \<in> set (freeSlotsWalk dayStart dayEnd booked). instants s) \<union> (\<Union>s \<in> set booked. instants s)"
  proof
    fix t assume "t \<in> {dayStart ..< dayEnd}"
    then have "dayStart \<le> t" "t < dayEnd" by simp_all
    then show "t \<in> (\<Union>s \<in> set (freeSlotsWalk dayStart dayEnd booked). instants s)
                 \<union> (\<Union>s \<in> set booked. instants s)"
      by (rule walk_covers)
  qed
  have "(\<Union>s \<in> set (freeSlotsWalk dayStart dayEnd booked). instants (clip dayStart dayEnd s))
           \<union> (\<Union>s \<in> set booked. instants (clip dayStart dayEnd s))
        = ((\<Union>s \<in> set (freeSlotsWalk dayStart dayEnd booked). instants s)
            \<union> (\<Union>s \<in> set booked. instants s)) \<inter> {dayStart ..< dayEnd}"
    unfolding instants_clip by blast
  also have "\<dots> = {dayStart ..< dayEnd}" using cover by blast
  finally have 1: "(\<Union>s \<in> set (freeSlotsWalk dayStart dayEnd booked). instants (clip dayStart dayEnd s))
           \<union> (\<Union>s \<in> set booked. instants (clip dayStart dayEnd s)) = {dayStart ..< dayEnd}" .
  have 2: "\<forall>a \<in> set (freeSlotsWalk dayStart dayEnd booked). \<forall>b \<in> set booked.
            instants (clip dayStart dayEnd a) \<inter> instants (clip dayStart dayEnd b) = {}"
  proof (intro ballI)
    fix a b assume "a \<in> set (freeSlotsWalk dayStart dayEnd booked)" "b \<in> set booked"
    from walk_disjoint[OF assms(1) this] show
      "instants (clip dayStart dayEnd a) \<inter> instants (clip dayStart dayEnd b) = {}"
      unfolding instants_clip by blast
  qed
  from 1 2 show ?thesis by (simp only: w) 
qed

theorem availability_round_trip_witness:
  "sorted (map slotStart [\<lparr> slotStart = 7, slotEnd = 10 \<rparr>, \<lparr> slotStart = 12, slotEnd = 20 \<rparr>])
   \<and> nonOverlapping [\<lparr> slotStart = 7, slotEnd = 10 \<rparr>, \<lparr> slotStart = 12, slotEnd = 20 \<rparr>]
   \<and> calculateAvailableSlots 8 18 [\<lparr> slotStart = 7, slotEnd = 10 \<rparr>, \<lparr> slotStart = 12, slotEnd = 20 \<rparr>]
       = [\<lparr> slotStart = 10, slotEnd = 12 \<rparr>]
   \<and> instants (clip 8 18 \<lparr> slotStart = 10, slotEnd = 12 \<rparr>)
       \<union> (instants (clip 8 18 \<lparr> slotStart = 7, slotEnd = 10 \<rparr>)
          \<union> instants (clip 8 18 \<lparr> slotStart = 12, slotEnd = 20 \<rparr>))
       = {8 ..< 18}"
proof -
  have s: "sorted (map slotStart [\<lparr> slotStart = 7, slotEnd = 10 \<rparr>, \<lparr> slotStart = 12, slotEnd = 20 \<rparr>])"
    by simp
  have n: "nonOverlapping [\<lparr> slotStart = 7, slotEnd = 10 \<rparr>, \<lparr> slotStart = 12, slotEnd = 20 \<rparr>]"
    by (simp add: slotsOverlap_def)
  have c: "calculateAvailableSlots 8 18 [\<lparr> slotStart = 7, slotEnd = 10 \<rparr>, \<lparr> slotStart = 12, slotEnd = 20 \<rparr>]
       = [\<lparr> slotStart = 10, slotEnd = 12 \<rparr>]"
    by (simp add: calculateAvailableSlots_def)
  from availability_round_trip[OF s n, of 8 18] s n c show ?thesis by simp
qed

section \<open>Cancellation and retrieval\<close>

text \<open>
  Claim C8. \<open>cancelBooking\<close> fails with \<open>BookingNotFoundError\<close> when no booking has
  the id, and with \<open>BookingAlreadyCancelledError\<close> when the booking is already
  cancelled. Otherwise it sets the status to \<open>CANCELLED\<close> and the cancellation time,
  stores the change, deletes the cache entry \<open>booking:<id>\<close> and leaves every other
  entry, hands a \<open>BOOKING_CANCELLED\<close> event with the updated booking and the reason to
  the event bus, and returns the updated booking. Any later cancellation of the same
  booking fails with \<open>BookingAlreadyCancelledError\<close>.
\<close>

theorem cancelBooking_behaviour:
  "(findById (bookings st) i = None \<longrightarrow>
      cancelBooking st i reason now = (Inl (BookingNotFoundError i), sent (SelectBookingById i) st))
   \<and> (findById (bookings st) i = Some b \<and> status b = CANCELLED \<longrightarrow>
      cancelBooking st i reason now = (Inl (BookingAlreadyCancelledError i), sent (SelectBookingById i) st))
   \<and> (findById (bookings st) i = Some b \<and> status b \<noteq> CANCELLED \<longrightarrow>
      (\<exists>u st'. cancelBooking st i reason now = (Inr u, st')
         \<and> status u = CANCELLED \<and> cancelledAt u = Some now
         \<and> findById (bookings st') i = Some u
         \<and> cache st' (bookingKey i) = None
         \<and> (\<forall>key. key \<noteq> bookingKey i \<longrightarrow> cache st' key = cache st key)
         \<and> emitted st' = emitted st @ [BOOKING_CANCELLED u reason now]
         \<and> (\<forall>reason' now'. fst (cancelBooking st' i reason' now')
                               = Inl (BookingAlreadyCancelledError i))))"
proof (intro conjI impI)
  assume "findById (bookings st) i = None"
  then show "cancelBooking st i reason now = (Inl (BookingNotFoundError i), sent (SelectBookingById i) st)"
    by (simp add: cancelBooking_def Let_def)
next
  assume "findById (bookings st) i = Some b \<and> status b = CANCELLED"
  then show "cancelBooking st i reason now
               = (Inl (BookingAlreadyCancelledError i), sent (SelectBookingById i) st)"
    by (simp add: cancelBooking_def Let_def)
next
  assume a: "findById (bookings st) i = Some b \<and> status b \<noteq> CANCELLED"
  then have f: "findById (bookings st) i = Some b" and s: "status b \<noteq> CANCELLED" by simp_all
  let ?u = "cancelRow i now b"
  let ?st' = "emit (BOOKING_CANCELLED ?u reason now)
              ((sent (UpdateBooking i)
                  ((sent (SelectBookingById i) st)\<lparr> bookings := map (cancelRow i now) (bookings st) \<rparr>))
               \<lparr> cache := cache_delete (cache st) (bookingKey i) \<rparr>)"
  have c: "cancelBooking st i reason now = (Inr ?u, ?st')" by (rule cancelBooking_success[OF f s])
  from findById_Some[OF f] have idb: "id_b b = i" by simp
  have u1: "status ?u = CANCELLED" "cancelledAt ?u = Some now" by (simp_all add: cancelRow_def idb)
  have u2: "findById (bookings ?st') i = Some ?u" by (simp add: findById_map_cancel f)
  have again: "fst (cancelBooking ?st' i reason' now') = Inl (BookingAlreadyCancelledError i)"
    for reason' now'
    using u2 u1 by (simp add: cancelBooking_def Let_def)
  show "\<exists>u st'. cancelBooking st i reason now = (Inr u, st')
         \<and> status u = CANCELLED \<and> cancelledAt u = Some now
         \<and> findById (bookings st') i = Some u
         \<and> cache st' (bookingKey i) = None
         \<and> (\<forall>key. key \<noteq> bookingKey i \<longrightarrow> cache st' key = cache st key)
         \<and> emitted st' = emitted st @ [BOOKING_CANCELLED u reason now]
         \<and> (\<forall>reason' now'. fst (cancelBooking st' i reason' now')
                               = Inl (BookingAlreadyCancelledError i))"
    apply (rule exI[of _ ?u], rule exI[of _ ?st'])
    using c u1 u2 again by (simp add: cache_delete_def)
qed

theorem cancelBooking_behaviour_witness:
  "findById (bookings world0) ''B1'' = None
   \<and> fst (cancelBooking world0 ''B1'' None 5) = Inl (BookingNotFoundError ''B1'')
   \<and> findById (bookings worldCancelled) ''B1''
       = Some (bookingA\<lparr> status := CANCELLED, cancelledAt := Some 5, updatedAt := 5 \<rparr>)
   \<and> fst (cancelBooking worldCancelled ''B1'' None 6) = Inl (BookingAlreadyCancelledError ''B1'')
   \<and> findById (bookings worldA) ''B1'' = Some bookingA \<and> status bookingA \<noteq> CANCELLED
   \<and> (\<exists>u st'. cancelBooking worldA ''B1'' (Some ''moved'') 5 = (Inr u, st')
         \<and> status u = CANCELLED \<and> cancelledAt u = Some 5
         \<and> cache st' (bookingKey ''B1'') = None
         \<and> emitted st' = [BOOKING_CANCELLED u (Some ''moved'') 5]
         \<and> fst (cancelBooking st' ''B1'' None 6) = Inl (BookingAlreadyCancelledError ''B1''))"
proof -
  have h0: "findById (bookings world0) ''B1'' = None"
    by (simp add: world0_def findById_def)
  have hc: "findById (bookings worldCancelled) ''B1''
       = Some (bookingA\<lparr> status := CANCELLED, cancelledAt := Some 5, updatedAt := 5 \<rparr>)"
    by (simp add: worldCancelled_def world0_def findById_def bookingA_def)
  from cancelBooking_behaviour[of world0 "''B1''" None 5 bookingA]
       cancelBooking_behaviour[of worldCancelled "''B1''" None 6
          "bookingA\<lparr> status := CANCELLED, cancelledAt := Some 5, updatedAt := 5 \<rparr>"]
       cancelBooking_behaviour[of worldA "''B1''" "Some ''moved''" 5 bookingA]
       h0 hc worldA_find bookingA_status
  show ?thesis by (auto simp: worldA_def world0_def)
qed

text \<open>
  Claim C9. \<open>getBooking\<close> is cache-aside. With an unexpired entry under
  \<open>booking:<id>\<close> the cached booking is returned and the state is left as it is (no
  statement is sent to the store), whatever the store holds: a stale value is returned.
  On a miss the store is read: an absent booking fails with \<open>BookingNotFoundError\<close>, a
  present one is cached with the TTL \<open>config.cache.ttl\<close> and returned. The cached value
  is then served up to the expiry instant; after it, or after the entry is deleted, the
  store is read again.
\<close>

theorem getBooking_cache_aside:
  "(cache st (bookingKey i) = Some (CachedBooking b, e) \<and> now \<le> e \<longrightarrow>
      (\<forall>bs. getBooking (st\<lparr> bookings := bs \<rparr>) i now = (Inr b, st\<lparr> bookings := bs \<rparr>)))
   \<and> (cache_get_booking (cache st) now (bookingKey i) = None \<and> findById (bookings st) i = None \<longrightarrow>
      getBooking st i now = (Inl (BookingNotFoundError i), sent (SelectBookingById i) st))
   \<and> (cache_get_booking (cache st) now (bookingKey i) = None \<and> findById (bookings st) i = Some b \<longrightarrow>
      (\<exists>st'. getBooking st i now = (Inr b, st')
         \<and> queries st' = queries st @ [SelectBookingById i]
         \<and> cache st' = (cache st)(bookingKey i \<mapsto> (CachedBooking b, now + ttl (config st) * 1000))
         \<and> bookings st' = bookings st \<and> emitted st' = emitted st
         \<and> (\<forall>bs now'. now' \<le> now + ttl (config st) * 1000 \<longrightarrow>
                getBooking (st'\<lparr> bookings := bs \<rparr>) i now' = (Inr b, st'\<lparr> bookings := bs \<rparr>))
         \<and> (\<forall>bs now'. now' > now + ttl (config st) * 1000 \<longrightarrow>
                fst (getBooking (st'\<lparr> bookings := bs \<rparr>) i now') = fromStore bs i)
         \<and> (\<forall>bs now'.
                fst (getBooking (st'\<lparr> bookings := bs,
                                     cache := cache_delete (cache st') (bookingKey i) \<rparr>) i now')
                  = fromStore bs i)))"
proof (intro conjI impI)
  assume "cache st (bookingKey i) = Some (CachedBooking b, e) \<and> now \<le> e"
  then show "\<forall>bs. getBooking (st\<lparr> bookings := bs \<rparr>) i now = (Inr b, st\<lparr> bookings := bs \<rparr>)"
    by (simp add: getBooking_hit)
next
  assume "cache_get_booking (cache st) now (bookingKey i) = None \<and> findById (bookings st) i = None"
  then show "getBooking st i now = (Inl (BookingNotFoundError i), sent (SelectBookingById i) st)"
    by (simp add: getBooking_miss)
next
  assume a: "cache_get_booking (cache st) now (bookingKey i) = None \<and> findById (bookings st) i = Some b"
  let ?e = "now + ttl (config st) * 1000"
  let ?st' = "(sent (SelectBookingById i) st)
           \<lparr> cache := (cache st)(bookingKey i \<mapsto> (CachedBooking b, ?e)) \<rparr>"
  from a have g: "getBooking st i now = (Inr b, ?st')" by (simp add: getBooking_miss)
  have stale: "getBooking (?st'\<lparr> bookings := bs \<rparr>) i now' = (Inr b, ?st'\<lparr> bookings := bs \<rparr>)"
    if "now' \<le> ?e" for bs now'
    by (rule getBooking_hit[where e = ?e]) (simp_all add: that)
  have expired: "fst (getBooking (?st'\<lparr> bookings := bs \<rparr>) i now') = fromStore bs i"
    if "now' > ?e" for bs now'
    using that
    by (simp add: getBooking_def Let_def cache_get_booking_def cache_get_def fromStore_def
        split: option.splits)
  have invalidated: "fst (getBooking (?st'\<lparr> bookings := bs,
                                     cache := cache_delete (cache ?st') (bookingKey i) \<rparr>) i now')
                  = fromStore bs i" for bs now'
    by (simp add: getBooking_def Let_def cache_get_booking_def cache_get_def fromStore_def
        cache_delete_def split: option.splits)
  show "\<exists>st'. getBooking st i now = (Inr b, st')
         \<and> queries st' = queries st @ [SelectBookingById i]
         \<and> cache st' = (cache st)(bookingKey i \<mapsto> (CachedBooking b, now + ttl (config st) * 1000))
         \<and> bookings st' = bookings st \<and> emitted st' = emitted st
         \<and> (\<forall>bs now'. now' \<le> now + ttl (config st) * 1000 \<longrightarrow>
                getBooking (st'\<lparr> bookings := bs \<rparr>) i now' = (Inr b, st'\<lparr> bookings := bs \<rparr>))
         \<and> (\<forall>bs now'. now' > now + ttl (config st) * 1000 \<longrightarrow>
                fst (getBooking (st'\<lparr> bookings := bs \<rparr>) i now') = fromStore bs i)
         \<and> (\<forall>bs now'.
                fst (getBooking (st'\<lparr> bookings := bs,
                                     cache := cache_delete (cache st') (bookingKey i) \<rparr>) i now')
                  = fromStore bs i)"
    apply (rule exI[of _ ?st'])
    using g stale expired invalidated by simp
qed

theorem getBooking_cache_aside_witness:
  "cache worldCached (bookingKey ''B1'') = Some (CachedBooking bookingA, 300000)
   \<and> getBooking (worldCached\<lparr> bookings := [] \<rparr>) ''B1'' 7 = (Inr bookingA, worldCached\<lparr> bookings := [] \<rparr>)
   \<and> cache_get_booking (cache world0) 7 (bookingKey ''B1'') = None
   \<and> findById (bookings world0) ''B1'' = None
   \<and> fst (getBooking world0 ''B1'' 7) = Inl (BookingNotFoundError ''B1'')
   \<and> cache_get_booking (cache worldA) 7 (bookingKey ''B1'') = None
   \<and> findById (bookings worldA) ''B1'' = Some bookingA
   \<and> (\<exists>st'. getBooking worldA ''B1'' 7 = (Inr bookingA, st')
         \<and> cache st' (bookingKey ''B1'') = Some (CachedBooking bookingA, 300007)
         \<and> fst (getBooking (st'\<lparr> bookings := [] \<rparr>) ''B1'' 300007) = Inr bookingA
         \<and> fst (getBooking (st'\<lparr> bookings := [] \<rparr>) ''B1'' 300008) = Inl (BookingNotFoundError ''B1''))"
proof -
  have c1: "cache worldCached (bookingKey ''B1'') = Some (CachedBooking bookingA, 300000)"
    by (simp add: worldCached_def world0_def)
  have m0: "cache_get_booking (cache world0) 7 (bookingKey ''B1'') = None"
    by (simp add: world0_def cache_get_booking_def cache_get_def)
  have f0: "findById (bookings world0) ''B1'' = None"
    by (simp add: world0_def findById_def)
  have mA: "cache_get_booking (cache worldA) 7 (bookingKey ''B1'') = None"
    by (simp add: worldA_def world0_def cache_get_booking_def cache_get_def)
  have t: "ttl (config worldA) = 300" by (simp add: worldA_def world0_def)
  have e: "fromStore [] ''B1'' = Inl (BookingNotFoundError ''B1'')"
    by (simp add: fromStore_def findById_def)
  from getBooking_cache_aside[of worldCached "''B1''" bookingA 300000 7]
       getBooking_cache_aside[of world0 "''B1''" bookingA 0 7]
       getBooking_cache_aside[of worldA "''B1''" bookingA 0 7]
       c1 m0 f0 mA worldA_find
  show ?thesis by (auto simp: t e)
qed

text \<open>
  Claim C10. A successful cancellation changes only the status, the cancellation time and
  the update time of the booking: its id, room, user, title, description, start, end,
  token and creation time stay, every row with another id is left as it is, and the
  resource directory is not touched.
\<close>

theorem cancelBooking_frame:
  assumes "findById (bookings st) i = Some b" and "status b \<noteq> CANCELLED"
  shows "\<exists>u st'. cancelBooking st i reason now = (Inr u, st')
     \<and> u = b\<lparr> status := CANCELLED, cancelledAt := Some now, updatedAt := now \<rparr>
     \<and> id_b u = id_b b \<and> roomId u = roomId b \<and> userId u = userId b \<and> title u = title b
     \<and> description u = description b \<and> startTime u = startTime b \<and> endTime u = endTime b
     \<and> idempotencyKey u = idempotencyKey b \<and> createdAt u = createdAt b
     \<and> length (bookings st') = length (bookings st)
     \<and> (\<forall>j < length (bookings st).
           bookings st' ! j =
             (if id_b (bookings st ! j) = i
              then (bookings st ! j)\<lparr> status := CANCELLED, cancelledAt := Some now, updatedAt := now \<rparr>
              else bookings st ! j))
     \<and> rooms st' = rooms st"
proof -
  from findById_Some[OF assms(1)] have idb: "id_b b = i" by simp
  show ?thesis
    unfolding cancelBooking_success[OF assms]
    by (simp add: cancelRow_self[OF idb]) (simp add: cancelRow_def)
qed

theorem cancelBooking_frame_witness:
  "findById (bookings worldA) ''B1'' = Some bookingA \<and> status bookingA \<noteq> CANCELLED
   \<and> (\<exists>u st'. cancelBooking worldA ''B1'' None 5 = (Inr u, st')
         \<and> u = bookingA\<lparr> status := CANCELLED, cancelledAt := Some 5, updatedAt := 5 \<rparr>
         \<and> startTime u = 36000000 \<and> idempotencyKey u = Some ''k1''
         \<and> length (bookings st') = 1)"
  using cancelBooking_frame[OF worldA_find bookingA_status, of None 5] worldA_find bookingA_status
  by (auto simp: worldA_def world0_def bookingA_def)

end
